theory Spec2Isabelle
  imports Complex_Main
begin

section \<open>Data model of \<open>src/index.ts\<close>\<close>

text \<open>
  The option \<open>maxLoops\<close> has the TypeScript type \<open>number\<close>. Every finite double is a
  rational, so a number is a rational or one of the three special values. The loop only
  ever compares against it with \<open><\<close>, which is false as soon as one side is \<open>NaN\<close>;
  \<open>le\<close> is JavaScript's \<open><=\<close>, in which the claims state their bounds.
\<close>

datatype number = Num rat | Infinity | NegInfinity | NaN

fun lt :: "number \<Rightarrow> number \<Rightarrow> bool" where
  "lt (Num a) (Num b) = (a < b)"
| "lt (Num a) Infinity = True"
| "lt NegInfinity (Num b) = True"
| "lt NegInfinity Infinity = True"
| "lt _ _ = False"

fun le :: "number \<Rightarrow> number \<Rightarrow> bool" where
  "le (Num a) (Num b) = (a \<le> b)"
| "le (Num a) Infinity = True"
| "le NegInfinity (Num b) = True"
| "le NegInfinity Infinity = True"
| "le Infinity Infinity = True"
| "le NegInfinity NegInfinity = True"
| "le _ _ = False"

text \<open>
  The counter \<open>iterations\<close> is a double too. It starts at 0 and \<open>iterations++\<close> is its
  only assignment, so it holds a natural number; the addition is exact below \<open>2\<^sup>5\<^sup>3\<close>,
  and \<open>2\<^sup>5\<^sup>3 + 1\<close> is no double and rounds back to \<open>2\<^sup>5\<^sup>3\<close>: there the counter stays.
\<close>

definition increment :: "nat \<Rightarrow> nat" where
  "increment n = (if n < 2 ^ 53 then n + 1 else n)"

text \<open>
  The three callbacks are caller code: they may read and change anything outside the
  loop (a mock that answers differently on each call, a message history, a network).
  That outside is the world \<open>'w\<close>. An awaited call started in a world either settles,
  as rejected (\<open>Inl\<close>, a throw or a rejected promise) or fulfilled (\<open>Inr\<close>), and leaves
  a new world, or never settles (\<open>None\<close>).

  \<open>TResponse\<close> is unconstrained, so a response may be \<open>undefined\<close>: a response is an
  option, \<open>None\<close> for \<open>undefined\<close>, and \<open>lastResponse\<close>, of type
  \<open>TResponse | undefined\<close>, holds the response itself.
\<close>

type_synonym ('a, 'e, 'w) awaited = "'w \<Rightarrow> (('e + 'a) \<times> 'w) option"

record ('r, 'c, 'e, 'w) AgentLoopOptions =
  llmCaller :: "'c \<Rightarrow> ('r option, 'e, 'w) awaited"
  stopCondition :: "'r option \<Rightarrow> 'c \<Rightarrow> (bool, 'e, 'w) awaited"
  maxLoops :: "number option"
  updateContext :: "('r option \<Rightarrow> 'c \<Rightarrow> ('c, 'e, 'w) awaited) option"
  initialContext :: 'c

datatype reason = stop_condition | max_loops

record ('r, 'c) AgentLoopResult =
  finalContext :: 'c
  lastResponse :: "'r option"
  reason :: reason
  iterations :: nat

text \<open>
  What \<open>agentLoop\<close> did to its callbacks is observed through a trace: each settled call
  is written down with its arguments and with how it settled, in the order of the calls.
\<close>

datatype ('r, 'c, 'e) call =
    LlmCaller 'c "'e + 'r option"
  | StopCondition "'r option" 'c "'e + bool"
  | UpdateContext "'r option" 'c "'e + 'c"

text \<open>
  Reading a trace: how the calls of one callback settled, in order (so the length is the
  number of times the callback was invoked), the context a call was given and the value
  it threw, if it did.
\<close>

fun llmCaller_settled :: "('r, 'c, 'e) call list \<Rightarrow> ('e + 'r option) list" where
  "llmCaller_settled [] = []"
| "llmCaller_settled (LlmCaller c x # t) = x # llmCaller_settled t"
| "llmCaller_settled (_ # t) = llmCaller_settled t"

fun stopCondition_settled :: "('r, 'c, 'e) call list \<Rightarrow> ('e + bool) list" where
  "stopCondition_settled [] = []"
| "stopCondition_settled (StopCondition r c x # t) = x # stopCondition_settled t"
| "stopCondition_settled (_ # t) = stopCondition_settled t"

fun updateContext_settled :: "('r, 'c, 'e) call list \<Rightarrow> ('e + 'c) list" where
  "updateContext_settled [] = []"
| "updateContext_settled (UpdateContext r c x # t) = x # updateContext_settled t"
| "updateContext_settled (_ # t) = updateContext_settled t"

fun context_of :: "('r, 'c, 'e) call \<Rightarrow> 'c" where
  "context_of (LlmCaller c x) = c"
| "context_of (StopCondition r c x) = c"
| "context_of (UpdateContext r c x) = c"


text \<open>
  The order of the calls in a trace: a call of \<open>stopCondition\<close> comes directly after
  the call of \<open>llmCaller\<close> that was fulfilled with the response it judges, on the same
  context; a call of \<open>updateContext\<close> comes directly after the call of \<open>stopCondition\<close>
  that returned false on the same response and context.
\<close>

fun in_turn :: "('r, 'c, 'e) call option \<Rightarrow> ('r, 'c, 'e) call list \<Rightarrow> bool" where
  "in_turn prev [] = True"
| "in_turn prev (LlmCaller c x # t) = in_turn (Some (LlmCaller c x)) t"
| "in_turn prev (StopCondition r c x # t) =
    (prev = Some (LlmCaller c (Inr r)) \<and> in_turn (Some (StopCondition r c x)) t)"
| "in_turn prev (UpdateContext r c x # t) =
    (prev = Some (StopCondition r c (Inr False)) \<and> in_turn (Some (UpdateContext r c x)) t)"

text \<open>
  A settled invocation of \<open>agentLoop\<close>: the promise it returned is rejected with the
  thrown value or fulfilled with the result record.
\<close>

record ('r, 'c, 'e, 'w) run =
  settled :: "'e + ('r, 'c) AgentLoopResult"
  world :: 'w
  calls :: "('r, 'c, 'e) call list"

section \<open>The loop\<close>

text \<open>
  One pass through the body of the \<open>while\<close> loop (lines 79 to 96) leaves the function
  (\<open>Exit\<close>: the \<open>return\<close> of line 86, or a callback that threw) or comes back to the
  loop test with new values of the variables (\<open>Again\<close>).
\<close>

datatype ('r, 'c, 'e, 'w) pass =
    Exit "('r, 'c, 'e, 'w) run"
  | Again 'c "'r option" nat 'w "('r, 'c, 'e) call list"

definition body ::
  "('r, 'c, 'e, 'w) AgentLoopOptions \<Rightarrow> 'c \<Rightarrow> 'r option \<Rightarrow> nat \<Rightarrow> 'w \<Rightarrow>
   ('r, 'c, 'e) call list \<Rightarrow> ('r, 'c, 'e, 'w) pass option" where
  "body opts currentContext lastResponse' iterations' w trace =
    (let iterations' = increment iterations' in
     case llmCaller opts currentContext w of
       None \<Rightarrow> None
     | Some (Inl e, w) \<Rightarrow>
         Some (Exit \<lparr>settled = Inl e, world = w,
                     calls = trace @ [LlmCaller currentContext (Inl e)]\<rparr>)
     | Some (Inr response, w) \<Rightarrow>
         (let trace = trace @ [LlmCaller currentContext (Inr response)];
              lastResponse' = response in
          case stopCondition opts response currentContext w of
            None \<Rightarrow> None
          | Some (Inl e, w) \<Rightarrow>
              Some (Exit \<lparr>settled = Inl e, world = w,
                          calls = trace @ [StopCondition response currentContext (Inl e)]\<rparr>)
          | Some (Inr shouldStop, w) \<Rightarrow>
              (let trace = trace @ [StopCondition response currentContext (Inr shouldStop)] in
               if shouldStop then
                 Some (Exit \<lparr>settled = Inr \<lparr>finalContext = currentContext,
                                              lastResponse = lastResponse',
                                              reason = stop_condition,
                                              iterations = iterations'\<rparr>,
                             world = w, calls = trace\<rparr>)
               else
                 (case updateContext opts of
                    None \<Rightarrow> Some (Again currentContext lastResponse' iterations' w trace)
                  | Some update \<Rightarrow>
                      (case update response currentContext w of
                         None \<Rightarrow> None
                       | Some (Inl e, w) \<Rightarrow>
                           Some (Exit \<lparr>settled = Inl e, world = w,
                                       calls = trace @ [UpdateContext response currentContext (Inl e)]\<rparr>)
                       | Some (Inr context, w) \<Rightarrow>
                           Some (Again context lastResponse' iterations' w
                                   (trace @ [UpdateContext response currentContext (Inr context)])))))))"

text \<open>
  The \<open>while\<close> loop of line 78 with the \<open>return\<close> of line 99 behind it. Nothing bounds
  the number of passes when \<open>maxLoops\<close> is \<open>Infinity\<close> or beyond the reach of the
  counter, and a callback may never settle: \<open>None\<close> is the invocation that never
  settles.
\<close>

partial_function (option) loop ::
  "('r, 'c, 'e, 'w) AgentLoopOptions \<Rightarrow> number \<Rightarrow> 'c \<Rightarrow> 'r option \<Rightarrow> nat \<Rightarrow> 'w \<Rightarrow>
   ('r, 'c, 'e) call list \<Rightarrow> ('r, 'c, 'e, 'w) run option" where
  "loop opts bound currentContext lastResponse' iterations' w trace =
    (if lt (Num (of_nat iterations')) bound then
       (case body opts currentContext lastResponse' iterations' w trace of
          None \<Rightarrow> None
        | Some (Exit r) \<Rightarrow> Some r
        | Some (Again context response n w' trace') \<Rightarrow>
            loop opts bound context response n w' trace')
     else
       Some \<lparr>settled = Inr \<lparr>finalContext = currentContext,
                            lastResponse = lastResponse',
                            reason = max_loops,
                            iterations = iterations'\<rparr>,
             world = w, calls = trace\<rparr>)"

text \<open>Line 72: an absent \<open>maxLoops\<close> is 10. Lines 74 to 76 initialise the variables.\<close>

definition bound_of :: "('r, 'c, 'e, 'w) AgentLoopOptions \<Rightarrow> number" where
  "bound_of opts = (case maxLoops opts of None \<Rightarrow> Num 10 | Some n \<Rightarrow> n)"

definition agentLoop ::
  "('r, 'c, 'e, 'w) AgentLoopOptions \<Rightarrow> 'w \<Rightarrow> ('r, 'c, 'e, 'w) run option" where
  "agentLoop opts w = loop opts (bound_of opts) (initialContext opts) None 0 w []"

text \<open>
  \<open>passes opts j w\<^sub>0 = Some (c, l, n, w, t)\<close>: started in the world \<open>w\<^sub>0\<close>, each of the
  first \<open>j\<close> passes through \<open>body\<close> came back to the loop test, and they leave the
  variables \<open>currentContext = c\<close>, \<open>lastResponse = l\<close>, \<open>iterations = n\<close>, the world \<open>w\<close>
  and the trace \<open>t\<close>. The bound plays no part in it.
\<close>

primrec passes ::
  "('r, 'c, 'e, 'w) AgentLoopOptions \<Rightarrow> nat \<Rightarrow> 'w \<Rightarrow>
   ('c \<times> 'r option \<times> nat \<times> 'w \<times> ('r, 'c, 'e) call list) option" where
  "passes opts 0 w = Some (initialContext opts, None, 0, w, [])"
| "passes opts (Suc j) w =
    (case passes opts j w of
       None \<Rightarrow> None
     | Some (c, l, n, w', t) \<Rightarrow>
         (case body opts c l n w' t of
            Some (Again c' l' n' w'' t') \<Rightarrow> Some (c', l', n', w'', t')
          | _ \<Rightarrow> None))"

section \<open>What the claims suppose of the callbacks\<close>

text \<open>
  The claims speak of iterations on which the predicate returns false. This is written
  with the callbacks alone, after sections 4.1 and 8 of the specification and with no
  part of \<open>body\<close> or \<open>loop\<close>: on one such iteration, in the state \<open>c\<close> and the world \<open>w\<close>,
  the responder is fulfilled with a response \<open>r\<close>, the predicate is fulfilled with
  false on \<open>r\<close> and \<open>c\<close>, and the transition, where there is one, is fulfilled with the
  next state; without one the state is carried forward. \<open>rounds opts j w\<^sub>0 = Some (c, l,
  w, t)\<close> says that the callbacks, started in the world \<open>w\<^sub>0\<close> on the initial state, behave
  so \<open>j\<close> times in a row, and names what they leave: the state \<open>c\<close>, the last response
  \<open>l\<close>, the world \<open>w\<close> and the calls \<open>t\<close> that were made.
\<close>

definition one_round ::
  "('r, 'c, 'e, 'w) AgentLoopOptions \<Rightarrow> 'c \<times> 'r option \<times> 'w \<times> ('r, 'c, 'e) call list \<Rightarrow>
   ('c \<times> 'r option \<times> 'w \<times> ('r, 'c, 'e) call list) option" where
  "one_round opts s =
    (case s of (c, l, w, t) \<Rightarrow>
       (case llmCaller opts c w of
          Some (Inr r, w1) \<Rightarrow>
            (case stopCondition opts r c w1 of
               Some (Inr False, w2) \<Rightarrow>
                 (case updateContext opts of
                    None \<Rightarrow>
                      Some (c, r, w2, t @ [LlmCaller c (Inr r), StopCondition r c (Inr False)])
                  | Some transition \<Rightarrow>
                      (case transition r c w2 of
                         Some (Inr c', w3) \<Rightarrow>
                           Some (c', r, w3,
                                 t @ [LlmCaller c (Inr r), StopCondition r c (Inr False),
                                      UpdateContext r c (Inr c')])
                       | _ \<Rightarrow> None))
             | _ \<Rightarrow> None)
        | _ \<Rightarrow> None))"

primrec rounds ::
  "('r, 'c, 'e, 'w) AgentLoopOptions \<Rightarrow> nat \<Rightarrow> 'w \<Rightarrow>
   ('c \<times> 'r option \<times> 'w \<times> ('r, 'c, 'e) call list) option" where
  "rounds opts 0 w = Some (initialContext opts, None, w, [])"
| "rounds opts (Suc j) w =
    (case rounds opts j w of None \<Rightarrow> None | Some s \<Rightarrow> one_round opts s)"

section \<open>Configurations of the test suite\<close>

text \<open>
  The configurations of \<open>index.test.ts\<close>. The world is the number of calls the mocked
  \<open>llmCaller\<close> has answered. \<open>until_stop\<close> answers \<open>stop\<close> on the third call and has
  neither \<open>maxLoops\<close> nor \<open>updateContext\<close>; \<open>never_stops\<close> has a predicate that is always
  false, \<open>maxLoops = 5\<close> and no \<open>updateContext\<close>; \<open>counting\<close> carries a counter as
  context, increments it in \<open>updateContext\<close> and stops once it has reached 3.
\<close>

definition until_stop :: "(string, unit, string, nat) AgentLoopOptions" where
  "until_stop =
    \<lparr>llmCaller = (\<lambda>c w. Some (Inr (Some (if w = 0 then ''response1''
                                             else if w = 1 then ''response2''
                                             else ''stop'')), w + 1)),
     stopCondition = (\<lambda>r c w. Some (Inr (r = Some ''stop''), w)),
     maxLoops = None,
     updateContext = None,
     initialContext = ()\<rparr>"

definition never_stops :: "(string, nat, string, nat) AgentLoopOptions" where
  "never_stops =
    \<lparr>llmCaller = (\<lambda>c w. Some (Inr (Some ''response''), w + 1)),
     stopCondition = (\<lambda>r c w. Some (Inr False, w)),
     maxLoops = Some (Num 5),
     updateContext = None,
     initialContext = 0\<rparr>"

definition counting :: "(string, nat, string, nat) AgentLoopOptions" where
  "counting =
    \<lparr>llmCaller = (\<lambda>c w. Some (Inr (Some ''response''), w + 1)),
     stopCondition = (\<lambda>r c w. Some (Inr (3 \<le> c), w)),
     maxLoops = None,
     updateContext = Some (\<lambda>r c w. Some (Inr (c + 1), w)),
     initialContext = 0\<rparr>"


text \<open>
  A responder that resolves to \<open>undefined\<close>, as a mock does that was given no value
  (\<open>vi.fn()\<close>), with the predicate of the last test, which is always true.
\<close>

definition answers_undefined :: "(string, unit, string, nat) AgentLoopOptions" where
  "answers_undefined =
    \<lparr>llmCaller = (\<lambda>c w. Some (Inr None, w + 1)),
     stopCondition = (\<lambda>r c w. Some (Inr True, w)),
     maxLoops = None,
     updateContext = None,
     initialContext = ()\<rparr>"

section \<open>Lemmas on traces, the counter, the body and the passes\<close>

lemma llmCaller_settled_append [simp]:
  "llmCaller_settled (xs @ ys) = llmCaller_settled xs @ llmCaller_settled ys"
  by (induction xs rule: llmCaller_settled.induct) simp_all

lemma stopCondition_settled_append [simp]:
  "stopCondition_settled (xs @ ys) = stopCondition_settled xs @ stopCondition_settled ys"
  by (induction xs rule: stopCondition_settled.induct) simp_all

lemma updateContext_settled_append [simp]:
  "updateContext_settled (xs @ ys) = updateContext_settled xs @ updateContext_settled ys"
  by (induction xs rule: updateContext_settled.induct) simp_all

lemma in_turn_append:
  "in_turn prev (xs @ ys) =
     (in_turn prev xs \<and> in_turn (if xs = [] then prev else Some (last xs)) ys)"
  by (induction prev xs rule: in_turn.induct) auto

lemma stopCondition_settled_member:
  "StopCondition r c x \<in> set t \<Longrightarrow> x \<in> set (stopCondition_settled t)"
  by (induction t rule: stopCondition_settled.induct) auto

text \<open>After \<open>j\<close> increments the counter holds \<open>min j 2\<^sup>5\<^sup>3\<close>.\<close>

lemma increment_min: "increment (min j (2 ^ 53)) = min (Suc j) (2 ^ 53)"
  by (simp add: increment_def min_def)

lemma increment_below: "n < 2 ^ 53 \<Longrightarrow> increment n = Suc n"
  by (simp add: increment_def)

lemma lt_bound_earlier:
  assumes "lt (Num (of_nat j)) b" and "i \<le> j"
  shows "lt (Num (of_nat i)) b"
  using assms by (cases b) simp_all

lemma le_bound_earlier:
  assumes "le (Num (of_nat k)) b" and "i < k"
  shows "lt (Num (of_nat i)) b"
  using assms by (cases b) simp_all

lemma lt_bound_counter:
  assumes "lt (Num (of_nat j)) b" and "i \<le> j"
  shows "lt (Num (of_nat (min i (2 ^ 53)))) b"
  using assms(1) by (rule lt_bound_earlier) (use assms(2) in simp)

lemma below_bound_ceiling:
  "lt (Num (of_nat i)) (Num q) \<longleftrightarrow> i < nat \<lceil>q\<rceil>"
proof -
  have "(of_nat i < q) = (int i < \<lceil>q\<rceil>)"
    by (simp add: less_ceiling_iff)
  then show ?thesis by auto
qed

text \<open>What one pass through the body can be: the six ways through it.\<close>

lemma body_cases:
  assumes "body opts c l n w t = Some p"
  obtains
    (llm_rejected) e w' where
      "llmCaller opts c w = Some (Inl e, w')"
      "p = Exit \<lparr>settled = Inl e, world = w', calls = t @ [LlmCaller c (Inl e)]\<rparr>"
  | (stop_rejected) r w1 e w' where
      "llmCaller opts c w = Some (Inr r, w1)"
      "stopCondition opts r c w1 = Some (Inl e, w')"
      "p = Exit \<lparr>settled = Inl e, world = w',
                 calls = t @ [LlmCaller c (Inr r), StopCondition r c (Inl e)]\<rparr>"
  | (stopped) r w1 w' where
      "llmCaller opts c w = Some (Inr r, w1)"
      "stopCondition opts r c w1 = Some (Inr True, w')"
      "p = Exit \<lparr>settled = Inr \<lparr>finalContext = c, lastResponse = r,
                                  reason = stop_condition, iterations = increment n\<rparr>,
                 world = w',
                 calls = t @ [LlmCaller c (Inr r), StopCondition r c (Inr True)]\<rparr>"
  | (update_rejected) r w1 w2 update e w' where
      "llmCaller opts c w = Some (Inr r, w1)"
      "stopCondition opts r c w1 = Some (Inr False, w2)"
      "updateContext opts = Some update"
      "update r c w2 = Some (Inl e, w')"
      "p = Exit \<lparr>settled = Inl e, world = w',
                 calls = t @ [LlmCaller c (Inr r), StopCondition r c (Inr False),
                              UpdateContext r c (Inl e)]\<rparr>"
  | (carried) r w1 w' where
      "llmCaller opts c w = Some (Inr r, w1)"
      "stopCondition opts r c w1 = Some (Inr False, w')"
      "updateContext opts = None"
      "p = Again c r (increment n) w'
             (t @ [LlmCaller c (Inr r), StopCondition r c (Inr False)])"
  | (updated) r w1 w2 update c' w' where
      "llmCaller opts c w = Some (Inr r, w1)"
      "stopCondition opts r c w1 = Some (Inr False, w2)"
      "updateContext opts = Some update"
      "update r c w2 = Some (Inr c', w')"
      "p = Again c' r (increment n) w'
             (t @ [LlmCaller c (Inr r), StopCondition r c (Inr False),
                   UpdateContext r c (Inr c')])"
  using assms unfolding body_def Let_def
  by (auto split: option.splits sum.splits if_splits prod.splits)

text \<open>
  The body comes back to the loop test exactly on an iteration as the claims suppose
  it, with the counter incremented.
\<close>

lemma body_one_round:
  "body opts c l n w t = Some (Again c' l' n' w' t') \<longleftrightarrow>
     one_round opts (c, l, w, t) = Some (c', l', w', t') \<and> n' = increment n"
  unfolding body_def one_round_def Let_def
  by (auto split: option.splits sum.splits if_splits prod.splits bool.splits)

lemma passes_Suc_cases:
  assumes "passes opts (Suc j) w0 = Some (c', l', n', w', t')"
  obtains c l n w t where
    "passes opts j w0 = Some (c, l, n, w, t)"
    "body opts c l n w t = Some (Again c' l' n' w' t')"
  using assms by (auto split: option.splits pass.splits)

lemma passes_induct [consumes 1, case_names start pass]:
  assumes "passes opts j w0 = Some s"
    and "P 0 (initialContext opts, None, 0, w0, [])"
    and "\<And>j c l n w t c' l' n' w' t'.
           passes opts j w0 = Some (c, l, n, w, t) \<Longrightarrow> P j (c, l, n, w, t) \<Longrightarrow>
           body opts c l n w t = Some (Again c' l' n' w' t') \<Longrightarrow>
           P (Suc j) (c', l', n', w', t')"
  shows "P j s"
  using assms(1)
proof (induction j arbitrary: s)
  case 0
  then show ?case using assms(2) by simp
next
  case (Suc j)
  obtain c' l' n' w' t' where s: "s = (c', l', n', w', t')"
    by (cases s)
  from Suc.prems [unfolded s] obtain c l n w t where
    p: "passes opts j w0 = Some (c, l, n, w, t)" and
    b: "body opts c l n w t = Some (Again c' l' n' w' t')"
    by (rule passes_Suc_cases)
  from Suc.IH [OF p] assms(3) [OF p _ b] show ?case
    unfolding s by blast
qed

lemma passes_iterations:
  "passes opts j w0 = Some (c, l, n, w, t) \<Longrightarrow> n = min j (2 ^ 53)"
proof (induction j "(c, l, n, w, t)" arbitrary: c l n w t rule: passes_induct)
  case start
  then show ?case by simp
next
  case (pass j c l n w t c' l' n' w' t')
  from pass(3) have "n' = increment n" by (simp add: body_one_round)
  with pass(2) show ?case by (simp only: increment_min)
qed

text \<open>
  Where the body comes back to the loop test on every iteration as the claims suppose
  it, the passes of the body are the rounds of the callbacks.
\<close>

lemma rounds_passes_if:
  assumes bridge: "\<And>c l n w t c' l' w' t'.
      one_round opts (c, l, w, t) = Some (c', l', w', t') \<Longrightarrow>
      body opts c l n w t = Some (Again c' l' (increment n) w' t')"
    and "rounds opts j w0 = Some (c, l, w, t)"
  shows "passes opts j w0 = Some (c, l, min j (2 ^ 53), w, t)"
  using assms(2)
proof (induction j arbitrary: c l w t)
  case 0
  then show ?case by simp
next
  case (Suc j)
  from Suc.prems obtain c0 l0 w1 t0 where
    r: "rounds opts j w0 = Some (c0, l0, w1, t0)" and
    o: "one_round opts (c0, l0, w1, t0) = Some (c, l, w, t)"
    by (auto split: option.splits)
  from r have p: "passes opts j w0 = Some (c0, l0, min j (2 ^ 53), w1, t0)"
    by (rule Suc.IH)
  from o have "body opts c0 l0 (min j (2 ^ 53)) w1 t0 =
                 Some (Again c l (increment (min j (2 ^ 53))) w t)"
    by (rule bridge)
  then have "body opts c0 l0 (min j (2 ^ 53)) w1 t0 =
                 Some (Again c l (min (Suc j) (2 ^ 53)) w t)"
    unfolding increment_min .
  with p show ?case by simp
qed

text \<open>While the test of the loop holds, the loop follows the passes.\<close>

lemma loop_follows_passes:
  assumes "passes opts j w0 = Some (c, l, n, w, t)"
    and "\<forall>i<j. lt (Num (of_nat (min i (2 ^ 53)))) b"
  shows "loop opts b (initialContext opts) None 0 w0 [] = loop opts b c l n w t"
  using assms
proof (induction j arbitrary: c l n w t)
  case 0
  then show ?case by simp
next
  case (Suc j)
  from Suc.prems(1) obtain c0 l0 n0 w1 t0 where
    p: "passes opts j w0 = Some (c0, l0, n0, w1, t0)" and
    b: "body opts c0 l0 n0 w1 t0 = Some (Again c l n w t)"
    by (rule passes_Suc_cases)
  have n0: "n0 = min j (2 ^ 53)" using p by (rule passes_iterations)
  have "loop opts b (initialContext opts) None 0 w0 [] = loop opts b c0 l0 n0 w1 t0"
    using Suc.IH [OF p] Suc.prems(2) by simp
  also have "\<dots> = loop opts b c l n w t"
    using b Suc.prems(2) n0 by (subst loop.simps) simp
  finally show ?case .
qed

text \<open>Every settled invocation left the loop after some number of full passes.\<close>

lemma loop_settled_from:
  fixes opts :: "('r, 'c, 'e, 'w) AgentLoopOptions"
  assumes settled: "loop opts b c l n w t = Some r"
    and start: "passes opts j w0 = Some (c, l, n, w, t)"
    and below: "\<forall>i<j. lt (Num (of_nat (min i (2 ^ 53)))) b"
  shows "\<exists>j' c' l' w' t'. passes opts j' w0 = Some (c', l', min j' (2 ^ 53), w', t') \<and>
           (\<forall>i<j'. lt (Num (of_nat (min i (2 ^ 53)))) b) \<and>
           (if lt (Num (of_nat (min j' (2 ^ 53)))) b
            then body opts c' l' (min j' (2 ^ 53)) w' t' = Some (Exit r)
            else r = \<lparr>settled = Inr \<lparr>finalContext = c', lastResponse = l',
                                      reason = max_loops, iterations = min j' (2 ^ 53)\<rparr>,
                      world = w', calls = t'\<rparr>)"
proof -
  define Q where "Q = (\<lambda>(opts :: ('r, 'c, 'e, 'w) AgentLoopOptions) b c l n w t r.
    \<forall>j. passes opts j w0 = Some (c, l, n, w, t) \<longrightarrow> (\<forall>i<j. lt (Num (of_nat (min i (2 ^ 53)))) b) \<longrightarrow>
      (\<exists>j' c' l' w' t'. passes opts j' w0 = Some (c', l', min j' (2 ^ 53), w', t') \<and>
           (\<forall>i<j'. lt (Num (of_nat (min i (2 ^ 53)))) b) \<and>
           (if lt (Num (of_nat (min j' (2 ^ 53)))) b
            then body opts c' l' (min j' (2 ^ 53)) w' t' = Some (Exit r)
            else r = \<lparr>settled = Inr \<lparr>finalContext = c', lastResponse = l',
                                      reason = max_loops, iterations = min j' (2 ^ 53)\<rparr>,
                      world = w', calls = t'\<rparr>)))"
  have "Q opts b c l n w t r"
  proof (rule loop.raw_induct [where P = Q, OF _ settled])
    fix loop' opts b c l n w t r
    assume IH: "\<And>opts b c l n w t r. loop' opts b c l n w t = Some r \<Longrightarrow> Q opts b c l n w t r"
      and eq: "(if lt (Num (of_nat n)) b
                then case body opts c l n w t of
                       None \<Rightarrow> None
                     | Some (Exit r) \<Rightarrow> Some r
                     | Some (Again context response n w' trace') \<Rightarrow>
                         loop' opts b context response n w' trace'
                else Some \<lparr>settled = Inr \<lparr>finalContext = c, lastResponse = l,
                                            reason = max_loops, iterations = n\<rparr>,
                            world = w, calls = t\<rparr>) = Some r"
    show "Q opts b c l n w t r"
      unfolding Q_def
    proof (intro allI impI)
      fix j
      assume p: "passes opts j w0 = Some (c, l, n, w, t)"
        and below: "\<forall>i<j. lt (Num (of_nat (min i (2 ^ 53)))) b"
      have n: "n = min j (2 ^ 53)" using p by (rule passes_iterations)
      let ?goal = "\<exists>j' c' l' w' t'. passes opts j' w0 = Some (c', l', min j' (2 ^ 53), w', t') \<and>
           (\<forall>i<j'. lt (Num (of_nat (min i (2 ^ 53)))) b) \<and>
           (if lt (Num (of_nat (min j' (2 ^ 53)))) b
            then body opts c' l' (min j' (2 ^ 53)) w' t' = Some (Exit r)
            else r = \<lparr>settled = Inr \<lparr>finalContext = c', lastResponse = l',
                                      reason = max_loops, iterations = min j' (2 ^ 53)\<rparr>,
                      world = w', calls = t'\<rparr>)"
      show ?goal
      proof (cases "lt (Num (of_nat n)) b")
        case False
        with eq p below n show ?thesis
          by (intro exI [of _ j] exI [of _ c] exI [of _ l] exI [of _ w] exI [of _ t]) auto
      next
        case True
        show ?thesis
        proof (cases "body opts c l n w t")
          case None
          with True eq show ?thesis by simp
        next
          case (Some p')
          show ?thesis
          proof (cases p')
            case (Exit r')
            with Some True eq p below n show ?thesis
              by (intro exI [of _ j] exI [of _ c] exI [of _ l] exI [of _ w] exI [of _ t]) auto
          next
            case (Again c' l' n' w' t')
            with Some True eq have run: "loop' opts b c' l' n' w' t' = Some r"
              by simp
            have p': "passes opts (Suc j) w0 = Some (c', l', n', w', t')"
              using p Some Again by simp
            have "\<forall>i<Suc j. lt (Num (of_nat (min i (2 ^ 53)))) b"
              using below True n by (simp add: less_Suc_eq)
            with IH [OF run] p' show ?thesis
              unfolding Q_def by blast
          qed
        qed
      qed
    qed
  qed
  with start below show ?thesis
    unfolding Q_def by blast
qed

lemma agentLoop_settled_cases:
  assumes "agentLoop opts w0 = Some r"
  obtains (budget) j c l w t where
      "passes opts j w0 = Some (c, l, min j (2 ^ 53), w, t)"
      "\<forall>i<j. lt (Num (of_nat (min i (2 ^ 53)))) (bound_of opts)"
      "\<not> lt (Num (of_nat (min j (2 ^ 53)))) (bound_of opts)"
      "r = \<lparr>settled = Inr \<lparr>finalContext = c, lastResponse = l,
                            reason = max_loops, iterations = min j (2 ^ 53)\<rparr>,
            world = w, calls = t\<rparr>"
  | (left) j c l w t where
      "passes opts j w0 = Some (c, l, min j (2 ^ 53), w, t)"
      "\<forall>i<j. lt (Num (of_nat (min i (2 ^ 53)))) (bound_of opts)"
      "lt (Num (of_nat (min j (2 ^ 53)))) (bound_of opts)"
      "body opts c l (min j (2 ^ 53)) w t = Some (Exit r)"
proof -
  have "passes opts 0 w0 = Some (initialContext opts, None, 0, w0, [])" by simp
  from loop_settled_from [OF assms [unfolded agentLoop_def] this]
  obtain j c l w t where
    "passes opts j w0 = Some (c, l, min j (2 ^ 53), w, t)"
    "\<forall>i<j. lt (Num (of_nat (min i (2 ^ 53)))) (bound_of opts)"
    "if lt (Num (of_nat (min j (2 ^ 53)))) (bound_of opts)
     then body opts c l (min j (2 ^ 53)) w t = Some (Exit r)
     else r = \<lparr>settled = Inr \<lparr>finalContext = c, lastResponse = l,
                               reason = max_loops, iterations = min j (2 ^ 53)\<rparr>,
               world = w, calls = t\<rparr>"
    by auto
  then show thesis
    by (cases "lt (Num (of_nat (min j (2 ^ 53)))) (bound_of opts)") (auto intro: budget left)
qed

text \<open>What full passes leave behind.\<close>

lemma passes_calls:
  assumes "passes opts j w0 = Some (c, l, n, w, t)"
  shows "length (llmCaller_settled t) = j \<and> length (stopCondition_settled t) = j \<and>
         length (updateContext_settled t) = (if updateContext opts = None then 0 else j)"
  using assms
proof (induction j "(c, l, n, w, t)" arbitrary: c l n w t rule: passes_induct)
  case start
  then show ?case by simp
next
  case (pass j c l n w t c' l' n' w' t')
  from pass(3) pass(2) show ?case
    by (elim body_cases) auto
qed

lemma passes_stopCondition_false:
  assumes "passes opts j w0 = Some (c, l, n, w, t)"
  shows "stopCondition_settled t = replicate j (Inr False)"
  using assms
proof (induction j "(c, l, n, w, t)" arbitrary: c l n w t rule: passes_induct)
  case start
  then show ?case by simp
next
  case (pass j c l n w t c' l' n' w' t')
  from pass(3) pass(2) show ?case
    by (elim body_cases) (auto simp: replicate_append_same)
qed

lemma passes_not_stopped:
  assumes "passes opts j w0 = Some (c, l, n, w, t)"
  shows "StopCondition r c' (Inr True) \<notin> set t"
proof
  assume "StopCondition r c' (Inr True) \<in> set t"
  then have "Inr True \<in> set (stopCondition_settled t)"
    by (rule stopCondition_settled_member)
  then show False
    unfolding passes_stopCondition_false [OF assms] by simp
qed

lemma passes_lastResponse:
  assumes "passes opts j w0 = Some (c, l, n, w, t)"
  shows "(j = 0 \<and> l = None \<and> t = []) \<or>
         (0 < j \<and> llmCaller_settled t \<noteq> [] \<and> last (llmCaller_settled t) = Inr l)"
  using assms
proof (induction j "(c, l, n, w, t)" arbitrary: c l n w t rule: passes_induct)
  case start
  then show ?case by simp
next
  case (pass j c l n w t c' l' n' w' t')
  from pass(3) show ?case
    by (elim body_cases) auto
qed

lemma passes_in_turn:
  assumes "passes opts j w0 = Some (c, l, n, w, t)"
  shows "in_turn None t"
  using assms
proof (induction j "(c, l, n, w, t)" arbitrary: c l n w t rule: passes_induct)
  case start
  then show ?case by simp
next
  case (pass j c l n w t c' l' n' w' t')
  from pass(3) pass(2) show ?case
    by (elim body_cases) (auto simp add: in_turn_append)
qed


lemma passes_without_updateContext:
  assumes "passes opts j w0 = Some (c, l, n, w, t)" and "updateContext opts = None"
  shows "c = initialContext opts \<and> (\<forall>x\<in>set t. context_of x = initialContext opts)"
  using assms
proof (induction j "(c, l, n, w, t)" arbitrary: c l n w t rule: passes_induct)
  case start
  then show ?case by simp
next
  case (pass j c l n w t c' l' n' w' t')
  from pass(3) pass(2) pass(4) show ?case
    by (elim body_cases) auto
qed

text \<open>Callbacks that always settle make the body settle.\<close>

lemma body_settles:
  assumes "\<And>c w. llmCaller opts c w \<noteq> None"
    and "\<And>r c w. stopCondition opts r c w \<noteq> None"
    and "\<And>update r c w. updateContext opts = Some update \<Longrightarrow> update r c w \<noteq> None"
  shows "body opts c l n w t \<noteq> None"
proof -
  obtain x w1 where llm: "llmCaller opts c w = Some (x, w1)"
    using assms(1) [of c w] by auto
  show ?thesis
  proof (cases x)
    case (Inl e)
    with llm show ?thesis by (simp add: body_def Let_def)
  next
    case (Inr r)
    obtain y w2 where stop: "stopCondition opts r c w1 = Some (y, w2)"
      using assms(2) [of r c w1] by auto
    show ?thesis
    proof (cases y)
      case (Inl e)
      with llm Inr stop show ?thesis by (simp add: body_def Let_def)
    next
      case Inr': (Inr shouldStop)
      show ?thesis
      proof (cases "updateContext opts")
        case None
        with llm Inr stop Inr' show ?thesis by (simp add: body_def Let_def)
      next
        case (Some update)
        obtain z w3 where "update r c w2 = Some (z, w3)"
          using assms(3) [OF Some, of r c w2] by auto
        with llm Inr stop Inr' Some show ?thesis
          by (cases z) (simp_all add: body_def Let_def)
      qed
    qed
  qed
qed

text \<open>
  A bound that \<open>2\<^sup>5\<^sup>3\<close> is not below is within the reach of the counter: the loop
  settles when the callbacks do.
\<close>

lemma loop_settles_finite:
  assumes "\<And>c w. llmCaller opts c w \<noteq> None"
    and "\<And>r c w. stopCondition opts r c w \<noteq> None"
    and "\<And>update r c w. updateContext opts = Some update \<Longrightarrow> update r c w \<noteq> None"
    and "q \<le> 2 ^ 53"
  shows "\<exists>r. loop opts (Num q) c l n w t = Some r"
proof (induction "nat \<lceil>q\<rceil> - n" arbitrary: c l n w t rule: less_induct)
  case less
  show ?case
  proof (cases "lt (Num (of_nat n)) (Num q)")
    case False
    then show ?thesis by (subst loop.simps) simp
  next
    case True
    then have n: "n < nat \<lceil>q\<rceil>" by (simp only: below_bound_ceiling)
    from True assms(4) have "(of_nat n :: rat) < of_nat (2 ^ 53)" by simp
    then have small: "n < 2 ^ 53" by (simp only: of_nat_less_iff)
    have "body opts c l n w t \<noteq> None"
      by (rule body_settles) (fact assms(1-3))+
    then obtain p where p: "body opts c l n w t = Some p" by auto
    show ?thesis
    proof (cases p)
      case (Exit r)
      with True p show ?thesis by (subst loop.simps) simp
    next
      case (Again c' l' n' w' t')
      with p have "n' = increment n" by (simp add: body_one_round)
      with small have "n' = Suc n" by (simp only: increment_below)
      with n have "nat \<lceil>q\<rceil> - n' < nat \<lceil>q\<rceil> - n" by simp
      from less [OF this] obtain r where "loop opts (Num q) c' l' n' w' t' = Some r"
        by blast
      with True p Again show ?thesis by (subst loop.simps) simp
    qed
  qed
qed

lemma loop_settles:
  assumes "\<And>c w. llmCaller opts c w \<noteq> None"
    and "\<And>r c w. stopCondition opts r c w \<noteq> None"
    and "\<And>update r c w. updateContext opts = Some update \<Longrightarrow> update r c w \<noteq> None"
    and "\<not> lt (Num (2 ^ 53)) b"
  shows "\<exists>r. loop opts b c l 0 w t = Some r"
proof (cases b)
  case (Num q)
  with assms(4) have "q \<le> 2 ^ 53" by simp
  with assms(1-3) show ?thesis unfolding Num by (rule loop_settles_finite)
next
  case Infinity
  with assms(4) show ?thesis by simp
next
  case NegInfinity
  then show ?thesis by (subst loop.simps) simp
next
  case NaN
  then show ?thesis by (subst loop.simps) simp
qed

text \<open>
  A body that never leaves the function under a bound beyond the reach of the counter,
  that is one that \<open>2\<^sup>5\<^sup>3\<close> is below: the test never fails, and there is no result.
\<close>

lemma increment_reach: "n \<le> 2 ^ 53 \<Longrightarrow> increment n \<le> 2 ^ 53"
  by (simp add: increment_def)

lemma loop_never_settles:
  fixes opts :: "('r, 'c, 'e, 'w) AgentLoopOptions"
  assumes "\<And>c l n w t r. body opts c l n w t \<noteq> Some (Exit r)"
    and "lt (Num (2 ^ 53)) b"
    and "n \<le> 2 ^ 53"
  shows "loop opts b c l n w t = None"
proof (rule ccontr)
  assume "loop opts b c l n w t \<noteq> None"
  then obtain r where settled: "loop opts b c l n w t = Some r" by auto
  define Q where "Q = (\<lambda>(opts' :: ('r, 'c, 'e, 'w) AgentLoopOptions) b' (c :: 'c)
      (l :: 'r option) (n :: nat) (w :: 'w) (t :: ('r, 'c, 'e) call list)
      (r :: ('r, 'c, 'e, 'w) run). opts' = opts \<and> b' = b \<and> n \<le> 2 ^ 53 \<longrightarrow> False)"
  have "Q opts b c l n w t r"
  proof (rule loop.raw_induct [where P = Q, OF _ settled])
    fix loop' opts' b' c l n w t r
    assume IH: "\<And>opts b c l n w t r. loop' opts b c l n w t = Some r \<Longrightarrow> Q opts b c l n w t r"
      and eq: "(if lt (Num (of_nat n)) b'
                then case body opts' c l n w t of
                       None \<Rightarrow> None
                     | Some (Exit r) \<Rightarrow> Some r
                     | Some (Again context response n w' trace') \<Rightarrow>
                         loop' opts' b' context response n w' trace'
                else Some \<lparr>settled = Inr \<lparr>finalContext = c, lastResponse = l,
                                            reason = max_loops, iterations = n\<rparr>,
                            world = w, calls = t\<rparr>) = Some r"
    show "Q opts' b' c l n w t r"
      unfolding Q_def
    proof (intro impI, elim conjE)
      assume same: "opts' = opts" "b' = b" and n: "n \<le> 2 ^ 53"
      have "lt (Num (of_nat (2 ^ 53))) b"
        using assms(2) by simp
      then have test: "lt (Num (of_nat n)) b"
        using n by (rule lt_bound_earlier)
      show False
      proof (cases "body opts c l n w t")
        case None
        with eq same test show ?thesis by simp
      next
        case (Some p)
        show ?thesis
        proof (cases p)
          case (Exit r')
          with Some assms(1) show ?thesis by simp
        next
          case (Again c' l' n' w' t')
          with Some eq same test have run: "loop' opts b c' l' n' w' t' = Some r"
            by simp
          from Some Again have "n' = increment n"
            by (simp add: body_one_round)
          with n have "n' \<le> 2 ^ 53"
            by (simp only: increment_reach)
          with IH [OF run] show ?thesis unfolding Q_def by simp
        qed
      qed
    qed
  qed
  with assms(3) show False unfolding Q_def by simp
qed

lemma ceiling_reach:
  assumes "q \<le> 2 ^ 53"
  shows "nat \<lceil>q :: rat\<rceil> \<le> 2 ^ 53"
proof -
  have "\<lceil>q\<rceil> \<le> (2::int) ^ 53"
    using assms by (simp add: ceiling_le_iff)
  then have "nat \<lceil>q\<rceil> \<le> nat ((2::int) ^ 53)"
    by (rule nat_mono)
  also have "nat ((2::int) ^ 53) = 2 ^ 53"
    by simp
  finally show ?thesis .
qed

lemma increment_positive: "0 < increment n"
  by (simp add: increment_def)

text \<open>
  Within the reach of the counter, that is under a bound that \<open>2\<^sup>5\<^sup>3\<close> is not below,
  the passes that the test lets through are below \<open>2\<^sup>5\<^sup>3\<close>.
\<close>

lemma passes_within_reach:
  assumes "\<forall>i<j. lt (Num (of_nat (min i (2 ^ 53)))) b"
    and "\<not> lt (Num (2 ^ 53)) b"
  shows "j \<le> 2 ^ 53"
proof (rule ccontr)
  assume "\<not> j \<le> 2 ^ 53"
  then have "(2::nat) ^ 53 < j" by simp
  with assms(1) have "lt (Num (of_nat (min (2 ^ 53) (2 ^ 53)))) b" by blast
  with assms(2) show False by simp
qed

lemma pass_within_reach:
  assumes "lt (Num (of_nat (min j (2 ^ 53)))) b"
    and "\<not> lt (Num (2 ^ 53)) b"
  shows "j < 2 ^ 53"
proof (rule ccontr)
  assume "\<not> j < 2 ^ 53"
  then have "min j (2 ^ 53) = (2::nat) ^ 53" by simp
  with assms show False by simp
qed

text \<open>
  After \<open>j\<close> rounds that the loop test lets through, a pass that leaves the function
  settles the invocation.
\<close>

lemma agentLoop_leaves_if:
  assumes bridge: "\<And>c l n w t c' l' w' t'.
      one_round opts (c, l, w, t) = Some (c', l', w', t') \<Longrightarrow>
      body opts c l n w t = Some (Again c' l' (increment n) w' t')"
    and earlier: "rounds opts j w0 = Some (c, l, w, t)"
    and below: "lt (Num (of_nat j)) (bound_of opts)"
    and leaves: "body opts c l (min j (2 ^ 53)) w t = Some (Exit run)"
  shows "agentLoop opts w0 = Some run"
proof -
  have p: "passes opts j w0 = Some (c, l, min j (2 ^ 53), w, t)"
    using bridge earlier by (rule rounds_passes_if)
  have "\<forall>i<j. lt (Num (of_nat (min i (2 ^ 53)))) (bound_of opts)"
  proof (intro allI impI)
    fix i assume "i < j"
    then have "i \<le> j" by simp
    with below show "lt (Num (of_nat (min i (2 ^ 53)))) (bound_of opts)"
      by (rule lt_bound_counter)
  qed
  then have "agentLoop opts w0 = loop opts (bound_of opts) c l (min j (2 ^ 53)) w t"
    unfolding agentLoop_def using p by (intro loop_follows_passes)
  also have "\<dots> = Some run"
    using lt_bound_counter [OF below order_refl] leaves by (subst loop.simps) simp
  finally show ?thesis .
qed

text \<open>
  The predicate of \<open>never_stops\<close> is always false: under \<open>maxLoops = 2\<^sup>5\<^sup>3 + 2\<close>, the
  least double above \<open>2\<^sup>5\<^sup>3\<close>, the invocation never settles.
\<close>

lemma never_stops_beyond_reach:
  "agentLoop (never_stops\<lparr>maxLoops := Some (Num (2 ^ 53 + 2))\<rparr>) 0 = None"
proof -
  have "\<And>c l n w t r.
          body (never_stops\<lparr>maxLoops := Some (Num (2 ^ 53 + 2))\<rparr>) c l n w t \<noteq> Some (Exit r)"
    by (simp add: body_def never_stops_def)
  moreover have "lt (Num (2 ^ 53))
                    (bound_of (never_stops\<lparr>maxLoops := Some (Num (2 ^ 53 + 2))\<rparr>))"
    by (simp add: bound_of_def)
  moreover have "(0::nat) \<le> 2 ^ 53" by simp
  ultimately show ?thesis
    unfolding agentLoop_def by (rule loop_never_settles)
qed

section \<open>The claims\<close>

text \<open>
  Claim C1, as amended. Let the predicate return false on each of the first \<open>k - 1\<close>
  iterations (\<open>rounds\<close>) and true on iteration \<open>k\<close>, with \<open>1 \<le> k \<le> maxLoops\<close>, an absent
  \<open>maxLoops\<close> being 10. Then \<open>agentLoop\<close> returns with the reason \<open>stop_condition\<close> and
  \<open>iterations = k\<close>, as long as \<open>k\<close> is at most \<open>2\<^sup>5\<^sup>3\<close>, where the counter stays
  (\<open>iterations = min k 2\<^sup>5\<^sup>3\<close> in general). Its calls are those of the \<open>k - 1\<close> earlier
  iterations followed by one call of \<open>llmCaller\<close> and one of \<open>stopCondition\<close>:
  \<open>updateContext\<close> is not invoked on the terminating iteration. A configuration that
  supplies \<open>updateContext\<close> has it invoked exactly \<open>k - 1\<close> times; one that omits it has
  it invoked never.

  The claim as stated, \<open>k - 1\<close> invocations of \<open>updateContext\<close> for every
  configuration, fails where \<open>updateContext\<close> is omitted (line 94 guards the call): the
  first configuration of the test suite stops on iteration 3 after no invocation.
\<close>

theorem agentLoop_stop_condition:
  assumes "0 < k"
    and "le (Num (of_nat k)) (case maxLoops opts of None \<Rightarrow> Num 10 | Some m \<Rightarrow> m)"
    and "rounds opts (k - 1) w0 = Some (c, l, w, t)"
    and "llmCaller opts c w = Some (Inr r, w1)"
    and "stopCondition opts r c w1 = Some (Inr True, w2)"
  shows "agentLoop opts w0 =
           Some \<lparr>settled = Inr \<lparr>finalContext = c, lastResponse = r,
                                 reason = stop_condition,
                                 iterations = min k (2 ^ 53)\<rparr>,
                 world = w2,
                 calls = t @ [LlmCaller c (Inr r), StopCondition r c (Inr True)]\<rparr> \<and>
         length (updateContext_settled
                   (t @ [LlmCaller c (Inr r), StopCondition r c (Inr True)])) =
           (if updateContext opts = None then 0 else k - 1)"
proof -
  have bridge: "\<And>c l n w t c' l' w' t'.
      one_round opts (c, l, w, t) = Some (c', l', w', t') \<Longrightarrow>
      body opts c l n w t = Some (Again c' l' (increment n) w' t')"
    unfolding body_def one_round_def Let_def
    by (auto split: option.splits sum.splits if_splits prod.splits bool.splits)
  have "le (Num (of_nat k)) (bound_of opts)"
    using assms(2) by (simp add: bound_of_def)
  moreover have "k - 1 < k"
    using assms(1) by simp
  ultimately have below: "lt (Num (of_nat (k - 1))) (bound_of opts)"
    by (rule le_bound_earlier)
  have "body opts c l (min (k - 1) (2 ^ 53)) w t =
          Some (Exit \<lparr>settled = Inr \<lparr>finalContext = c, lastResponse = r,
                                        reason = stop_condition,
                                        iterations = increment (min (k - 1) (2 ^ 53))\<rparr>,
                        world = w2,
                        calls = t @ [LlmCaller c (Inr r), StopCondition r c (Inr True)]\<rparr>)"
    using assms(4,5) by (simp add: body_def Let_def)
  moreover have "Suc (k - 1) = k"
    using assms(1) by simp
  ultimately have leaves: "body opts c l (min (k - 1) (2 ^ 53)) w t =
          Some (Exit \<lparr>settled = Inr \<lparr>finalContext = c, lastResponse = r,
                                        reason = stop_condition,
                                        iterations = min k (2 ^ 53)\<rparr>,
                        world = w2,
                        calls = t @ [LlmCaller c (Inr r), StopCondition r c (Inr True)]\<rparr>)"
    by (simp only: increment_min)
  have run: "agentLoop opts w0 =
           Some \<lparr>settled = Inr \<lparr>finalContext = c, lastResponse = r,
                                 reason = stop_condition,
                                 iterations = min k (2 ^ 53)\<rparr>,
                 world = w2,
                 calls = t @ [LlmCaller c (Inr r), StopCondition r c (Inr True)]\<rparr>"
    using bridge assms(3) below leaves by (rule agentLoop_leaves_if)
  have p: "passes opts (k - 1) w0 = Some (c, l, min (k - 1) (2 ^ 53), w, t)"
    using bridge assms(3) by (rule rounds_passes_if)
  from run passes_calls [OF p] show ?thesis by simp
qed

theorem agentLoop_stop_condition_witness:
  "agentLoop until_stop 0 =
     Some \<lparr>settled = Inr \<lparr>finalContext = (), lastResponse = Some ''stop'',
                           reason = stop_condition, iterations = 3\<rparr>,
           world = 3,
           calls =
             [LlmCaller () (Inr (Some ''response1'')),
              StopCondition (Some ''response1'') () (Inr False),
              LlmCaller () (Inr (Some ''response2'')),
              StopCondition (Some ''response2'') () (Inr False),
              LlmCaller () (Inr (Some ''stop'')),
              StopCondition (Some ''stop'') () (Inr True)]\<rparr> \<and>
   agentLoop counting 0 =
     Some \<lparr>settled = Inr \<lparr>finalContext = 3, lastResponse = Some ''response'',
                           reason = stop_condition, iterations = 4\<rparr>,
           world = 4,
           calls =
             [LlmCaller 0 (Inr (Some ''response'')),
              StopCondition (Some ''response'') 0 (Inr False),
              UpdateContext (Some ''response'') 0 (Inr 1),
              LlmCaller 1 (Inr (Some ''response'')),
              StopCondition (Some ''response'') 1 (Inr False),
              UpdateContext (Some ''response'') 1 (Inr 2),
              LlmCaller 2 (Inr (Some ''response'')),
              StopCondition (Some ''response'') 2 (Inr False),
              UpdateContext (Some ''response'') 2 (Inr 3),
              LlmCaller 3 (Inr (Some ''response'')),
              StopCondition (Some ''response'') 3 (Inr True)]\<rparr>"
proof -
  have k3: "0 < (3::nat)" and k4: "0 < (4::nat)" by simp_all
  have b3: "le (Num (of_nat 3)) (case maxLoops until_stop of None \<Rightarrow> Num 10 | Some m \<Rightarrow> m)"
    by (simp add: until_stop_def)
  have b4: "le (Num (of_nat 4)) (case maxLoops counting of None \<Rightarrow> Num 10 | Some m \<Rightarrow> m)"
    by (simp add: counting_def)
  have p3: "rounds until_stop (3 - 1) 0 =
     Some ((), Some ''response2'', 2,
       [LlmCaller () (Inr (Some ''response1'')),
        StopCondition (Some ''response1'') () (Inr False),
        LlmCaller () (Inr (Some ''response2'')),
        StopCondition (Some ''response2'') () (Inr False)])"
    by (simp add: until_stop_def one_round_def eval_nat_numeral)
  have p4: "rounds counting (4 - 1) 0 =
     Some (3, Some ''response'', 3,
       [LlmCaller 0 (Inr (Some ''response'')),
        StopCondition (Some ''response'') 0 (Inr False),
        UpdateContext (Some ''response'') 0 (Inr 1),
        LlmCaller 1 (Inr (Some ''response'')),
        StopCondition (Some ''response'') 1 (Inr False),
        UpdateContext (Some ''response'') 1 (Inr 2),
        LlmCaller 2 (Inr (Some ''response'')),
        StopCondition (Some ''response'') 2 (Inr False),
        UpdateContext (Some ''response'') 2 (Inr 3)])"
    by (simp add: counting_def one_round_def eval_nat_numeral)
  have llm3: "llmCaller until_stop () 2 = Some (Inr (Some ''stop''), 3)"
    by (simp add: until_stop_def)
  have stop3: "stopCondition until_stop (Some ''stop'') () 3 = Some (Inr True, 3)"
    by (simp add: until_stop_def)
  have llm4: "llmCaller counting 3 3 = Some (Inr (Some ''response''), 4)"
    by (simp add: counting_def)
  have stop4: "stopCondition counting (Some ''response'') 3 4 = Some (Inr True, 4)"
    by (simp add: counting_def)
  have run3: "agentLoop until_stop 0 =
     Some \<lparr>settled = Inr \<lparr>finalContext = (), lastResponse = Some ''stop'',
                           reason = stop_condition, iterations = 3\<rparr>,
           world = 3,
           calls =
             [LlmCaller () (Inr (Some ''response1'')),
              StopCondition (Some ''response1'') () (Inr False),
              LlmCaller () (Inr (Some ''response2'')),
              StopCondition (Some ''response2'') () (Inr False),
              LlmCaller () (Inr (Some ''stop'')),
              StopCondition (Some ''stop'') () (Inr True)]\<rparr>"
    by (simp add: agentLoop_def bound_of_def until_stop_def loop.simps body_def increment_def)
  have run4: "agentLoop counting 0 =
     Some \<lparr>settled = Inr \<lparr>finalContext = 3, lastResponse = Some ''response'',
                           reason = stop_condition, iterations = 4\<rparr>,
           world = 4,
           calls =
             [LlmCaller 0 (Inr (Some ''response'')),
              StopCondition (Some ''response'') 0 (Inr False),
              UpdateContext (Some ''response'') 0 (Inr 1),
              LlmCaller 1 (Inr (Some ''response'')),
              StopCondition (Some ''response'') 1 (Inr False),
              UpdateContext (Some ''response'') 1 (Inr 2),
              LlmCaller 2 (Inr (Some ''response'')),
              StopCondition (Some ''response'') 2 (Inr False),
              UpdateContext (Some ''response'') 2 (Inr 3),
              LlmCaller 3 (Inr (Some ''response'')),
              StopCondition (Some ''response'') 3 (Inr True)]\<rparr>"
    by (simp add: agentLoop_def bound_of_def counting_def loop.simps body_def increment_def)
  from agentLoop_stop_condition [OF k3 b3 p3 llm3 stop3]
    agentLoop_stop_condition [OF k4 b4 p4 llm4 stop4] run3 run4
  show ?thesis by simp
qed

theorem agentLoop_stop_condition_counterexample:
  "updateContext until_stop = None \<and>
   agentLoop until_stop 0 =
     Some \<lparr>settled = Inr \<lparr>finalContext = (), lastResponse = Some ''stop'',
                           reason = stop_condition, iterations = 3\<rparr>,
           world = 3,
           calls =
             [LlmCaller () (Inr (Some ''response1'')),
              StopCondition (Some ''response1'') () (Inr False),
              LlmCaller () (Inr (Some ''response2'')),
              StopCondition (Some ''response2'') () (Inr False),
              LlmCaller () (Inr (Some ''stop'')),
              StopCondition (Some ''stop'') () (Inr True)]\<rparr> \<and>
   length (updateContext_settled
     [LlmCaller () (Inr (Some ''response1'')) :: (string, unit, string) call,
      StopCondition (Some ''response1'') () (Inr False),
      LlmCaller () (Inr (Some ''response2'')),
      StopCondition (Some ''response2'') () (Inr False),
      LlmCaller () (Inr (Some ''stop'')),
      StopCondition (Some ''stop'') () (Inr True)]) \<noteq> 3 - 1"
  by (simp add: agentLoop_def bound_of_def until_stop_def loop.simps body_def increment_def)

text \<open>
  Claim C2, as amended. Let \<open>maxLoops\<close> be a finite number that is at most \<open>2\<^sup>5\<^sup>3\<close> (an
  absent \<open>maxLoops\<close> is 10) and let \<open>N\<close> be \<open>maxLoops\<close> rounded up, or 0 when \<open>maxLoops\<close>
  is negative: \<open>N\<close> is \<open>maxLoops\<close> itself when \<open>maxLoops\<close> is a non-negative integer. If
  the predicate returns false on each of the first \<open>N\<close> iterations (\<open>rounds\<close>), then
  \<open>agentLoop\<close> returns with the reason \<open>max_loops\<close> and \<open>iterations = N\<close>, after \<open>N\<close>
  invocations of \<open>llmCaller\<close> and, where the configuration supplies \<open>updateContext\<close>,
  \<open>N\<close> invocations of it, the last of them after the final iteration.

  The claim as stated, \<open>iterations = maxLoops\<close> for every configuration, fails for a
  negative \<open>maxLoops\<close>: with \<open>maxLoops = -1\<close> the result has \<open>iterations = 0\<close>.
\<close>

theorem agentLoop_max_loops:
  assumes "(case maxLoops opts of None \<Rightarrow> Num 10 | Some m \<Rightarrow> m) = Num q"
    and "q \<le> 2 ^ 53"
    and "rounds opts (nat \<lceil>q\<rceil>) w0 = Some (c, l, w, t)"
  shows "agentLoop opts w0 =
           Some \<lparr>settled = Inr \<lparr>finalContext = c, lastResponse = l,
                                 reason = max_loops, iterations = nat \<lceil>q\<rceil>\<rparr>,
                 world = w, calls = t\<rparr> \<and>
         length (llmCaller_settled t) = nat \<lceil>q\<rceil> \<and>
         length (updateContext_settled t) =
           (if updateContext opts = None then 0 else nat \<lceil>q\<rceil>)"
proof -
  have bridge: "\<And>c l n w t c' l' w' t'.
      one_round opts (c, l, w, t) = Some (c', l', w', t') \<Longrightarrow>
      body opts c l n w t = Some (Again c' l' (increment n) w' t')"
    unfolding body_def one_round_def Let_def
    by (auto split: option.splits sum.splits if_splits prod.splits bool.splits)
  have b: "bound_of opts = Num q"
    using assms(1) by (simp add: bound_of_def)
  have reach: "nat \<lceil>q\<rceil> \<le> 2 ^ 53"
    using assms(2) by (rule ceiling_reach)
  then have m: "min (nat \<lceil>q\<rceil>) (2 ^ 53) = nat \<lceil>q\<rceil>" by simp
  have "passes opts (nat \<lceil>q\<rceil>) w0 = Some (c, l, min (nat \<lceil>q\<rceil>) (2 ^ 53), w, t)"
    using bridge assms(3) by (rule rounds_passes_if)
  then have p: "passes opts (nat \<lceil>q\<rceil>) w0 = Some (c, l, nat \<lceil>q\<rceil>, w, t)"
    unfolding m .
  have "\<forall>i<nat \<lceil>q\<rceil>. lt (Num (of_nat (min i (2 ^ 53)))) (Num q)"
  proof (intro allI impI)
    fix i assume i: "i < nat \<lceil>q\<rceil>"
    with reach have "min i (2 ^ 53) = i" by simp
    with i show "lt (Num (of_nat (min i (2 ^ 53)))) (Num q)"
      by (simp only: below_bound_ceiling)
  qed
  then have "agentLoop opts w0 = loop opts (Num q) c l (nat \<lceil>q\<rceil>) w t"
    unfolding agentLoop_def b using p by (intro loop_follows_passes)
  moreover have "\<not> lt (Num (of_nat (nat \<lceil>q\<rceil>))) (Num q)"
    unfolding below_bound_ceiling by simp
  then have "loop opts (Num q) c l (nat \<lceil>q\<rceil>) w t =
           Some \<lparr>settled = Inr \<lparr>finalContext = c, lastResponse = l,
                                 reason = max_loops, iterations = nat \<lceil>q\<rceil>\<rparr>,
                 world = w, calls = t\<rparr>"
    by (subst loop.simps) simp
  ultimately show ?thesis
    using passes_calls [OF p] by simp
qed

theorem agentLoop_max_loops_witness:
  "agentLoop never_stops 0 =
     Some \<lparr>settled = Inr \<lparr>finalContext = 0, lastResponse = Some ''response'',
                           reason = max_loops, iterations = 5\<rparr>,
           world = 5,
           calls = concat (replicate 5
             [LlmCaller 0 (Inr (Some ''response'')),
              StopCondition (Some ''response'') 0 (Inr False)])\<rparr> \<and>
   agentLoop (never_stops\<lparr>maxLoops := None\<rparr>) 0 =
     Some \<lparr>settled = Inr \<lparr>finalContext = 0, lastResponse = Some ''response'',
                           reason = max_loops, iterations = 10\<rparr>,
           world = 10,
           calls = concat (replicate 10
             [LlmCaller 0 (Inr (Some ''response'')),
              StopCondition (Some ''response'') 0 (Inr False)])\<rparr> \<and>
   agentLoop (counting\<lparr>maxLoops := Some (Num 3)\<rparr>) 0 =
     Some \<lparr>settled = Inr \<lparr>finalContext = 3, lastResponse = Some ''response'',
                           reason = max_loops, iterations = 3\<rparr>,
           world = 3,
           calls =
             [LlmCaller 0 (Inr (Some ''response'')),
              StopCondition (Some ''response'') 0 (Inr False),
              UpdateContext (Some ''response'') 0 (Inr 1),
              LlmCaller 1 (Inr (Some ''response'')),
              StopCondition (Some ''response'') 1 (Inr False),
              UpdateContext (Some ''response'') 1 (Inr 2),
              LlmCaller 2 (Inr (Some ''response'')),
              StopCondition (Some ''response'') 2 (Inr False),
              UpdateContext (Some ''response'') 2 (Inr 3)]\<rparr>"
proof -
  have b5: "(case maxLoops never_stops of None \<Rightarrow> Num 10 | Some m \<Rightarrow> m) = Num 5"
    by (simp add: never_stops_def)
  have b10: "(case maxLoops (never_stops\<lparr>maxLoops := None\<rparr>) of
               None \<Rightarrow> Num 10 | Some m \<Rightarrow> m) = Num 10"
    by simp
  have b3: "(case maxLoops (counting\<lparr>maxLoops := Some (Num 3)\<rparr>) of
              None \<Rightarrow> Num 10 | Some m \<Rightarrow> m) = Num 3"
    by simp
  have q5: "(5::rat) \<le> 2 ^ 53" and q10: "(10::rat) \<le> 2 ^ 53" and q3: "(3::rat) \<le> 2 ^ 53"
    by simp_all
  have p5: "rounds never_stops (nat \<lceil>5::rat\<rceil>) 0 =
     Some (0, Some ''response'', 5, concat (replicate 5
             [LlmCaller 0 (Inr (Some ''response'')),
              StopCondition (Some ''response'') 0 (Inr False)]))"
    by (simp add: never_stops_def one_round_def eval_nat_numeral)
  have p10: "rounds (never_stops\<lparr>maxLoops := None\<rparr>) (nat \<lceil>10::rat\<rceil>) 0 =
     Some (0, Some ''response'', 10, concat (replicate 10
             [LlmCaller 0 (Inr (Some ''response'')),
              StopCondition (Some ''response'') 0 (Inr False)]))"
    by (simp add: never_stops_def one_round_def eval_nat_numeral)
  have p3: "rounds (counting\<lparr>maxLoops := Some (Num 3)\<rparr>) (nat \<lceil>3::rat\<rceil>) 0 =
     Some (3, Some ''response'', 3,
             [LlmCaller 0 (Inr (Some ''response'')),
              StopCondition (Some ''response'') 0 (Inr False),
              UpdateContext (Some ''response'') 0 (Inr 1),
              LlmCaller 1 (Inr (Some ''response'')),
              StopCondition (Some ''response'') 1 (Inr False),
              UpdateContext (Some ''response'') 1 (Inr 2),
              LlmCaller 2 (Inr (Some ''response'')),
              StopCondition (Some ''response'') 2 (Inr False),
              UpdateContext (Some ''response'') 2 (Inr 3)])"
    by (simp add: counting_def one_round_def eval_nat_numeral)
  have run5: "agentLoop never_stops 0 =
     Some \<lparr>settled = Inr \<lparr>finalContext = 0, lastResponse = Some ''response'',
                           reason = max_loops, iterations = 5\<rparr>,
           world = 5,
           calls =
             [LlmCaller 0 (Inr (Some ''response'')),
              StopCondition (Some ''response'') 0 (Inr False),
              LlmCaller 0 (Inr (Some ''response'')),
              StopCondition (Some ''response'') 0 (Inr False),
              LlmCaller 0 (Inr (Some ''response'')),
              StopCondition (Some ''response'') 0 (Inr False),
              LlmCaller 0 (Inr (Some ''response'')),
              StopCondition (Some ''response'') 0 (Inr False),
              LlmCaller 0 (Inr (Some ''response'')),
              StopCondition (Some ''response'') 0 (Inr False)]\<rparr>"
    by (simp add: agentLoop_def bound_of_def never_stops_def loop.simps body_def
        increment_def)
  from agentLoop_max_loops [OF b5 q5 p5] agentLoop_max_loops [OF b10 q10 p10]
    agentLoop_max_loops [OF b3 q3 p3] run5
  show ?thesis by simp
qed

theorem agentLoop_max_loops_negative_counterexample:
  "maxLoops (never_stops\<lparr>maxLoops := Some (Num (- 1))\<rparr>) = Some (Num (- 1)) \<and>
   agentLoop (never_stops\<lparr>maxLoops := Some (Num (- 1))\<rparr>) 0 =
     Some \<lparr>settled = Inr \<lparr>finalContext = 0, lastResponse = None,
                           reason = max_loops, iterations = 0\<rparr>,
           world = 0, calls = []\<rparr> \<and>
   Num (of_nat 0) \<noteq> Num (- 1)"
  by (simp add: agentLoop_def bound_of_def never_stops_def loop.simps)

text \<open>
  Claim C3. When the predicate has returned false on \<open>j\<close> iterations (\<open>rounds\<close>), the
  loop test lets iteration \<open>j + 1\<close> run, and on it \<open>stopCondition\<close> returns true on the
  response \<open>r\<close> and the context \<open>c\<close> that \<open>llmCaller\<close> was given, then \<open>agentLoop\<close>
  returns, with \<open>c\<close> as \<open>finalContext\<close>, \<open>r\<close> as \<open>lastResponse\<close> and the reason
  \<open>stop_condition\<close>, and the call of \<open>stopCondition\<close> is its last call: \<open>updateContext\<close>
  is not invoked on the terminating iteration. And in every settled invocation each
  call of \<open>stopCondition\<close> comes directly after the call of \<open>llmCaller\<close> that produced
  the response it judges and is given the context that call was given, \<open>updateContext\<close>
  being called only after it, when it returned false: the predicate sees the state
  before the transition; and a call of \<open>stopCondition\<close> that returned true is the last
  call, with its context as \<open>finalContext\<close>.
\<close>

theorem agentLoop_stopCondition_context:
  "(\<forall>j c l w t r w1 w2.
      rounds opts j w0 = Some (c, l, w, t) \<and>
      lt (Num (of_nat j)) (case maxLoops opts of None \<Rightarrow> Num 10 | Some m \<Rightarrow> m) \<and>
      llmCaller opts c w = Some (Inr r, w1) \<and>
      stopCondition opts r c w1 = Some (Inr True, w2) \<longrightarrow>
      agentLoop opts w0 =
        Some \<lparr>settled = Inr \<lparr>finalContext = c, lastResponse = r,
                              reason = stop_condition,
                              iterations = min (Suc j) (2 ^ 53)\<rparr>,
              world = w2,
              calls = t @ [LlmCaller c (Inr r), StopCondition r c (Inr True)]\<rparr>) \<and>
   (\<forall>run. agentLoop opts w0 = Some run \<longrightarrow>
      in_turn None (calls run) \<and>
      (\<forall>r c. StopCondition r c (Inr True) \<in> set (calls run) \<longrightarrow>
         last (calls run) = StopCondition r c (Inr True) \<and>
         (\<exists>n. settled run = Inr \<lparr>finalContext = c, lastResponse = r,
                                   reason = stop_condition, iterations = n\<rparr>)))"
proof (intro conjI allI impI)
  fix j c l w t r w1 w2
  assume h: "rounds opts j w0 = Some (c, l, w, t) \<and>
      lt (Num (of_nat j)) (case maxLoops opts of None \<Rightarrow> Num 10 | Some m \<Rightarrow> m) \<and>
      llmCaller opts c w = Some (Inr r, w1) \<and>
      stopCondition opts r c w1 = Some (Inr True, w2)"
  have bridge: "\<And>c l n w t c' l' w' t'.
      one_round opts (c, l, w, t) = Some (c', l', w', t') \<Longrightarrow>
      body opts c l n w t = Some (Again c' l' (increment n) w' t')"
    unfolding body_def one_round_def Let_def
    by (auto split: option.splits sum.splits if_splits prod.splits bool.splits)
  from h have below: "lt (Num (of_nat j)) (bound_of opts)"
    by (simp add: bound_of_def)
  from h have earlier: "rounds opts j w0 = Some (c, l, w, t)"
    by simp
  from h have "body opts c l (min j (2 ^ 53)) w t =
          Some (Exit \<lparr>settled = Inr \<lparr>finalContext = c, lastResponse = r,
                                        reason = stop_condition,
                                        iterations = increment (min j (2 ^ 53))\<rparr>,
                        world = w2,
                        calls = t @ [LlmCaller c (Inr r), StopCondition r c (Inr True)]\<rparr>)"
    by (simp add: body_def Let_def)
  then have leaves: "body opts c l (min j (2 ^ 53)) w t =
          Some (Exit \<lparr>settled = Inr \<lparr>finalContext = c, lastResponse = r,
                                        reason = stop_condition,
                                        iterations = min (Suc j) (2 ^ 53)\<rparr>,
                        world = w2,
                        calls = t @ [LlmCaller c (Inr r), StopCondition r c (Inr True)]\<rparr>)"
    unfolding increment_min .
  from bridge earlier below leaves show "agentLoop opts w0 =
        Some \<lparr>settled = Inr \<lparr>finalContext = c, lastResponse = r,
                              reason = stop_condition,
                              iterations = min (Suc j) (2 ^ 53)\<rparr>,
              world = w2,
              calls = t @ [LlmCaller c (Inr r), StopCondition r c (Inr True)]\<rparr>"
    by (rule agentLoop_leaves_if)
next
  fix run
  assume run: "agentLoop opts w0 = Some run"
  then show "in_turn None (calls run)"
  proof (cases rule: agentLoop_settled_cases)
    case (budget j c l w t)
    with passes_in_turn [OF budget(1)] show ?thesis by simp
  next
    case (left j c l w t)
    from left(4) passes_in_turn [OF left(1)] show ?thesis
      by (elim body_cases) (auto simp add: in_turn_append)
  qed
next
  fix run r c
  assume run: "agentLoop opts w0 = Some run"
    and true: "StopCondition r c (Inr True) \<in> set (calls run)"
  from run have "last (calls run) = StopCondition r c (Inr True) \<and>
         (\<exists>n. settled run = Inr \<lparr>finalContext = c, lastResponse = r,
                                   reason = stop_condition, iterations = n\<rparr>)"
  proof (cases rule: agentLoop_settled_cases)
    case (budget j c' l w t)
    with passes_not_stopped [OF budget(1)] true show ?thesis by simp
  next
    case (left j c' l w t)
    from left(4) passes_not_stopped [OF left(1)] true show ?thesis
      by (elim body_cases) auto
  qed
  then show "last (calls run) = StopCondition r c (Inr True)"
    and "\<exists>n. settled run = Inr \<lparr>finalContext = c, lastResponse = r,
                                   reason = stop_condition, iterations = n\<rparr>"
    by simp_all
qed

theorem agentLoop_stopCondition_context_witness:
  "agentLoop until_stop 0 =
     Some \<lparr>settled = Inr \<lparr>finalContext = (), lastResponse = Some ''stop'',
                           reason = stop_condition, iterations = 3\<rparr>,
           world = 3,
           calls =
             [LlmCaller () (Inr (Some ''response1'')),
              StopCondition (Some ''response1'') () (Inr False),
              LlmCaller () (Inr (Some ''response2'')),
              StopCondition (Some ''response2'') () (Inr False),
              LlmCaller () (Inr (Some ''stop'')),
              StopCondition (Some ''stop'') () (Inr True)]\<rparr> \<and>
   in_turn None
     [LlmCaller () (Inr (Some ''response1'')) :: (string, unit, string) call,
      StopCondition (Some ''response1'') () (Inr False),
      LlmCaller () (Inr (Some ''response2'')),
      StopCondition (Some ''response2'') () (Inr False),
      LlmCaller () (Inr (Some ''stop'')),
      StopCondition (Some ''stop'') () (Inr True)]"
proof -
  note c3 = agentLoop_stopCondition_context [of until_stop 0]
  have h: "rounds until_stop 2 0 =
       Some ((), Some ''response2'', 2,
         [LlmCaller () (Inr (Some ''response1'')),
          StopCondition (Some ''response1'') () (Inr False),
          LlmCaller () (Inr (Some ''response2'')),
          StopCondition (Some ''response2'') () (Inr False)]) \<and>
     lt (Num (of_nat 2)) (case maxLoops until_stop of None \<Rightarrow> Num 10 | Some m \<Rightarrow> m) \<and>
     llmCaller until_stop () 2 = Some (Inr (Some ''stop''), 3) \<and>
     stopCondition until_stop (Some ''stop'') () 3 = Some (Inr True, 3)"
    by (simp add: until_stop_def one_round_def eval_nat_numeral)
  from conjunct1 [OF c3, rule_format, OF h]
  have run: "agentLoop until_stop 0 =
     Some \<lparr>settled = Inr \<lparr>finalContext = (), lastResponse = Some ''stop'',
                           reason = stop_condition, iterations = 3\<rparr>,
           world = 3,
           calls =
             [LlmCaller () (Inr (Some ''response1'')),
              StopCondition (Some ''response1'') () (Inr False),
              LlmCaller () (Inr (Some ''response2'')),
              StopCondition (Some ''response2'') () (Inr False),
              LlmCaller () (Inr (Some ''stop'')),
              StopCondition (Some ''stop'') () (Inr True)]\<rparr>"
    by simp
  have "agentLoop until_stop 0 =
     Some \<lparr>settled = Inr \<lparr>finalContext = (), lastResponse = Some ''stop'',
                           reason = stop_condition, iterations = 3\<rparr>,
           world = 3,
           calls =
             [LlmCaller () (Inr (Some ''response1'')),
              StopCondition (Some ''response1'') () (Inr False),
              LlmCaller () (Inr (Some ''response2'')),
              StopCondition (Some ''response2'') () (Inr False),
              LlmCaller () (Inr (Some ''stop'')),
              StopCondition (Some ''stop'') () (Inr True)]\<rparr>"
    by (simp add: agentLoop_def bound_of_def until_stop_def loop.simps body_def increment_def)
  with conjunct2 [OF c3, rule_format, OF run] run show ?thesis
    by simp
qed

text \<open>
  Claim C4, as amended. In every outcome that \<open>agentLoop\<close> returns, \<open>iterations\<close> is the
  number of times \<open>llmCaller\<close> was invoked whenever \<open>maxLoops\<close> is not above \<open>2\<^sup>5\<^sup>3\<close> or
  absent (it is the smaller of that number and \<open>2\<^sup>5\<^sup>3\<close> in general, the counter being a
  double); it is a natural number, so at least 0; and it is 0 or \<open>iterations - 1 <
  maxLoops\<close>, so that \<open>iterations \<le> maxLoops\<close> whenever \<open>maxLoops\<close> is a non-negative
  integer, an absent \<open>maxLoops\<close> being 10.

  The claim as stated, \<open>0 \<le> iterations \<le> maxLoops\<close> for every outcome, fails for a
  negative \<open>maxLoops\<close>: with \<open>maxLoops = -1\<close> the outcome has \<open>iterations = 0\<close>, and
  \<open>0 \<le> -1\<close> is false.
\<close>

theorem agentLoop_iterations:
  assumes "agentLoop opts w0 = Some run" and "settled run = Inr res"
  shows "iterations res = min (length (llmCaller_settled (calls run))) (2 ^ 53) \<and>
         (\<not> lt (Num (2 ^ 53)) (case maxLoops opts of None \<Rightarrow> Num 10 | Some m \<Rightarrow> m) \<longrightarrow>
            iterations res = length (llmCaller_settled (calls run))) \<and>
         (iterations res = 0 \<or>
            lt (Num (of_nat (iterations res - 1)))
               (case maxLoops opts of None \<Rightarrow> Num 10 | Some m \<Rightarrow> m)) \<and>
         (\<forall>N. (case maxLoops opts of None \<Rightarrow> Num 10 | Some m \<Rightarrow> m) = Num (of_nat N) \<longrightarrow>
            iterations res \<le> N)"
proof -
  let ?b = "case maxLoops opts of None \<Rightarrow> Num 10 | Some m \<Rightarrow> m"
  have b: "bound_of opts = ?b" by (simp add: bound_of_def)
  have facts: "iterations res = min (length (llmCaller_settled (calls run))) (2 ^ 53) \<and>
         (\<not> lt (Num (2 ^ 53)) ?b \<longrightarrow> length (llmCaller_settled (calls run)) \<le> 2 ^ 53) \<and>
         (iterations res = 0 \<or> lt (Num (of_nat (iterations res - 1))) ?b)"
    using assms(1)
  proof (cases rule: agentLoop_settled_cases)
    case (budget j c l w t)
    from budget(4) assms(2) have res: "iterations res = min j (2 ^ 53)"
      and t: "calls run = t"
      by auto
    have count: "length (llmCaller_settled t) = j"
      using passes_calls [OF budget(1)] by simp
    have "\<not> lt (Num (2 ^ 53)) ?b \<longrightarrow> j \<le> 2 ^ 53"
    proof
      assume "\<not> lt (Num (2 ^ 53)) ?b"
      with budget(2) show "j \<le> 2 ^ 53"
        unfolding b by (rule passes_within_reach)
    qed
    moreover have "min j (2 ^ 53) = 0 \<or> lt (Num (of_nat (min j (2 ^ 53) - 1))) ?b"
    proof (cases j)
      case 0
      then show ?thesis by simp
    next
      case (Suc i)
      with budget(2) have "lt (Num (of_nat (min i (2 ^ 53)))) ?b"
        unfolding b by blast
      moreover have "min j (2 ^ 53) - 1 \<le> min i (2 ^ 53)"
        using Suc by simp
      ultimately have "lt (Num (of_nat (min j (2 ^ 53) - 1))) ?b"
        by (rule lt_bound_earlier)
      then show ?thesis ..
    qed
    ultimately show ?thesis
      unfolding res t count by blast
  next
    case (left j c l w t)
    from left(4) assms(2) have res: "iterations res = increment (min j (2 ^ 53))"
      and t: "length (llmCaller_settled (calls run)) = Suc (length (llmCaller_settled t))"
      by (auto elim!: body_cases)
    have count: "length (llmCaller_settled (calls run)) = Suc j"
      using passes_calls [OF left(1)] t by simp
    have res': "iterations res = min (Suc j) (2 ^ 53)"
      using res by (simp only: increment_min)
    have "\<not> lt (Num (2 ^ 53)) ?b \<longrightarrow> Suc j \<le> 2 ^ 53"
    proof
      assume "\<not> lt (Num (2 ^ 53)) ?b"
      with left(3) have "j < 2 ^ 53"
        unfolding b by (rule pass_within_reach)
      then show "Suc j \<le> 2 ^ 53" by simp
    qed
    moreover have "min (Suc j) (2 ^ 53) - 1 \<le> min j (2 ^ 53)"
      by simp
    with left(3) have "lt (Num (of_nat (min (Suc j) (2 ^ 53) - 1))) ?b"
      unfolding b by (rule lt_bound_earlier)
    ultimately show ?thesis
      unfolding res' count by blast
  qed
  have "\<forall>N. ?b = Num (of_nat N) \<longrightarrow> iterations res \<le> N"
  proof (intro allI impI)
    fix N assume N: "?b = Num (of_nat N)"
    from facts have "iterations res = 0 \<or> lt (Num (of_nat (iterations res - 1))) ?b"
      by blast
    then show "iterations res \<le> N"
    proof
      assume "iterations res = 0"
      then show ?thesis by simp
    next
      assume "lt (Num (of_nat (iterations res - 1))) ?b"
      then have "iterations res - 1 < N"
        unfolding N by simp
      then show ?thesis by simp
    qed
  qed
  with facts show ?thesis by auto
qed

theorem agentLoop_iterations_witness:
  "agentLoop counting 0 =
     Some \<lparr>settled = Inr \<lparr>finalContext = 3, lastResponse = Some ''response'',
                           reason = stop_condition, iterations = 4\<rparr>,
           world = 4,
           calls =
             [LlmCaller 0 (Inr (Some ''response'')),
              StopCondition (Some ''response'') 0 (Inr False),
              UpdateContext (Some ''response'') 0 (Inr 1),
              LlmCaller 1 (Inr (Some ''response'')),
              StopCondition (Some ''response'') 1 (Inr False),
              UpdateContext (Some ''response'') 1 (Inr 2),
              LlmCaller 2 (Inr (Some ''response'')),
              StopCondition (Some ''response'') 2 (Inr False),
              UpdateContext (Some ''response'') 2 (Inr 3),
              LlmCaller 3 (Inr (Some ''response'')),
              StopCondition (Some ''response'') 3 (Inr True)]\<rparr> \<and>
   maxLoops counting = None \<and>
   (4::nat) =
     length (llmCaller_settled
       [LlmCaller (0::nat) (Inr (Some ''response'') :: string + string option),
        StopCondition (Some ''response'') 0 (Inr False),
        UpdateContext (Some ''response'') 0 (Inr 1),
        LlmCaller 1 (Inr (Some ''response'')),
        StopCondition (Some ''response'') 1 (Inr False),
        UpdateContext (Some ''response'') 1 (Inr 2),
        LlmCaller 2 (Inr (Some ''response'')),
        StopCondition (Some ''response'') 2 (Inr False),
        UpdateContext (Some ''response'') 2 (Inr 3),
        LlmCaller 3 (Inr (Some ''response'')),
        StopCondition (Some ''response'') 3 (Inr True)]) \<and>
   (4::nat) \<le> 10"
proof -
  have none: "maxLoops counting = None"
    by (simp add: counting_def)
  have run: "agentLoop counting 0 =
     Some \<lparr>settled = Inr \<lparr>finalContext = 3, lastResponse = Some ''response'',
                           reason = stop_condition, iterations = 4\<rparr>,
           world = 4,
           calls =
             [LlmCaller 0 (Inr (Some ''response'')),
              StopCondition (Some ''response'') 0 (Inr False),
              UpdateContext (Some ''response'') 0 (Inr 1),
              LlmCaller 1 (Inr (Some ''response'')),
              StopCondition (Some ''response'') 1 (Inr False),
              UpdateContext (Some ''response'') 1 (Inr 2),
              LlmCaller 2 (Inr (Some ''response'')),
              StopCondition (Some ''response'') 2 (Inr False),
              UpdateContext (Some ''response'') 2 (Inr 3),
              LlmCaller 3 (Inr (Some ''response'')),
              StopCondition (Some ''response'') 3 (Inr True)]\<rparr>"
    by (simp add: agentLoop_def bound_of_def counting_def loop.simps body_def increment_def)
  from agentLoop_iterations [OF run, of "\<lparr>finalContext = 3,
      lastResponse = Some ''response'', reason = stop_condition, iterations = 4\<rparr>"]
    run none
  show ?thesis by simp
qed

theorem agentLoop_iterations_negative_counterexample:
  "maxLoops (until_stop\<lparr>maxLoops := Some (Num (- 1))\<rparr>) = Some (Num (- 1)) \<and>
   agentLoop (until_stop\<lparr>maxLoops := Some (Num (- 1))\<rparr>) 0 =
     Some \<lparr>settled = Inr \<lparr>finalContext = (), lastResponse = None,
                           reason = max_loops, iterations = 0\<rparr>,
           world = 0, calls = []\<rparr> \<and>
   \<not> le (Num (of_nat 0)) (Num (- 1))"
  by (simp add: agentLoop_def bound_of_def until_stop_def loop.simps)

text \<open>
  Claim C5. With \<open>maxLoops = 0\<close> the test of the loop fails at once: no callback is
  invoked (the trace is empty and the world is untouched), and the result carries the
  initial context, no response, the reason \<open>max_loops\<close> and 0 iterations.
\<close>

theorem agentLoop_maxLoops_zero:
  assumes "maxLoops opts = Some (Num 0)"
  shows "agentLoop opts w =
           Some \<lparr>settled = Inr \<lparr>finalContext = initialContext opts, lastResponse = None,
                                 reason = max_loops, iterations = 0\<rparr>,
                 world = w, calls = []\<rparr>"
  using assms by (simp add: agentLoop_def bound_of_def loop.simps)

theorem agentLoop_maxLoops_zero_witness:
  "maxLoops (counting\<lparr>maxLoops := Some (Num 0)\<rparr>) = Some (Num 0) \<and>
   agentLoop (counting\<lparr>maxLoops := Some (Num 0)\<rparr>) 7 =
     Some \<lparr>settled = Inr \<lparr>finalContext = 0, lastResponse = None,
                           reason = max_loops, iterations = 0\<rparr>,
           world = 7, calls = []\<rparr>"
  using agentLoop_maxLoops_zero [of "counting\<lparr>maxLoops := Some (Num 0)\<rparr>" 7]
  by (simp add: counting_def)

text \<open>
  Claim C6. When the configuration has no \<open>updateContext\<close>, every call that a settled
  invocation made to \<open>llmCaller\<close> and to \<open>stopCondition\<close> was given \<open>initialContext\<close>,
  and the \<open>finalContext\<close> of its result is \<open>initialContext\<close>, whatever the responses
  and the world were.
\<close>

theorem agentLoop_without_updateContext:
  assumes "updateContext opts = None" and "agentLoop opts w0 = Some run"
  shows "(\<forall>x\<in>set (calls run). context_of x = initialContext opts) \<and>
         (\<forall>res. settled run = Inr res \<longrightarrow> finalContext res = initialContext opts)"
  using assms(2)
proof (cases rule: agentLoop_settled_cases)
  case (budget j c l w t)
  with passes_without_updateContext [OF budget(1) assms(1)] show ?thesis
    by simp
next
  case (left j c l w t)
  from left(4) passes_without_updateContext [OF left(1) assms(1)] assms(1)
  show ?thesis
    by (elim body_cases) auto
qed

theorem agentLoop_without_updateContext_witness:
  "updateContext (counting\<lparr>maxLoops := Some (Num 2), updateContext := None\<rparr>) = None \<and>
   agentLoop (counting\<lparr>maxLoops := Some (Num 2), updateContext := None\<rparr>) 0 =
     Some \<lparr>settled = Inr \<lparr>finalContext = 0, lastResponse = Some ''response'',
                           reason = max_loops, iterations = 2\<rparr>,
           world = 2,
           calls =
             [LlmCaller 0 (Inr (Some ''response'')), StopCondition (Some ''response'') 0 (Inr False),
              LlmCaller 0 (Inr (Some ''response'')), StopCondition (Some ''response'') 0 (Inr False)]\<rparr> \<and>
   finalContext \<lparr>finalContext = 0 :: nat, lastResponse = Some ''response'',
                 reason = max_loops, iterations = 2\<rparr> =
     initialContext (counting\<lparr>maxLoops := Some (Num 2), updateContext := None\<rparr>)"
proof -
  let ?opts = "counting\<lparr>maxLoops := Some (Num 2), updateContext := None\<rparr>"
  have u: "updateContext ?opts = None" by simp
  have run: "agentLoop ?opts 0 =
     Some \<lparr>settled = Inr \<lparr>finalContext = 0, lastResponse = Some ''response'',
                           reason = max_loops, iterations = 2\<rparr>,
           world = 2,
           calls =
             [LlmCaller 0 (Inr (Some ''response'')), StopCondition (Some ''response'') 0 (Inr False),
              LlmCaller 0 (Inr (Some ''response'')), StopCondition (Some ''response'') 0 (Inr False)]\<rparr>"
    by (simp add: agentLoop_def bound_of_def counting_def loop.simps body_def increment_def)
  from agentLoop_without_updateContext [OF u run] u run show ?thesis
    by simp
qed

text \<open>
  Claim C7, as amended. In every outcome that \<open>agentLoop\<close> returns: when \<open>iterations\<close>
  is 0, \<open>lastResponse\<close> is \<open>undefined\<close> and \<open>llmCaller\<close> was not invoked; when
  \<open>iterations \<ge> 1\<close>, \<open>lastResponse\<close> is the value with which the most recent invocation
  of \<open>llmCaller\<close> was fulfilled, under both reasons. So \<open>lastResponse\<close> is \<open>undefined\<close>
  exactly when \<open>iterations = 0\<close> provided that no invocation of \<open>llmCaller\<close> resolved to
  \<open>undefined\<close>.

  The claim as stated fails for a responder that resolves to \<open>undefined\<close>, which the
  unconstrained \<open>TResponse\<close> allows: line 82 stores the response itself, and the
  outcome has \<open>lastResponse\<close> \<open>undefined\<close> with \<open>iterations = 1\<close>.
\<close>

theorem agentLoop_lastResponse:
  assumes "agentLoop opts w0 = Some run" and "settled run = Inr res"
  shows "(iterations res = 0 \<longrightarrow>
            lastResponse res = None \<and> llmCaller_settled (calls run) = []) \<and>
         (0 < iterations res \<longrightarrow>
            llmCaller_settled (calls run) \<noteq> [] \<and>
            last (llmCaller_settled (calls run)) = Inr (lastResponse res)) \<and>
         (Inr None \<notin> set (llmCaller_settled (calls run)) \<longrightarrow>
            (lastResponse res = None \<longleftrightarrow> iterations res = 0))"
proof -
  have parts: "(iterations res = 0 \<longrightarrow>
            lastResponse res = None \<and> llmCaller_settled (calls run) = []) \<and>
         (0 < iterations res \<longrightarrow>
            llmCaller_settled (calls run) \<noteq> [] \<and>
            last (llmCaller_settled (calls run)) = Inr (lastResponse res))"
    using assms(1)
  proof (cases rule: agentLoop_settled_cases)
    case (budget j c l w t)
    from budget(4) assms(2) have res: "iterations res = min j (2 ^ 53)"
      "lastResponse res = l" and t: "calls run = t"
      by auto
    have zero: "min j (2 ^ 53) = 0 \<longleftrightarrow> j = 0"
      by (simp add: min_def)
    from passes_lastResponse [OF budget(1)] show ?thesis
      unfolding res t using zero by auto
  next
    case (left j c l w t)
    from left(4) assms(2) increment_positive [of "min j (2 ^ 53)"] show ?thesis
      by (elim body_cases) auto
  qed
  moreover have "Inr None \<notin> set (llmCaller_settled (calls run)) \<longrightarrow>
            (lastResponse res = None \<longleftrightarrow> iterations res = 0)"
  proof (intro impI iffI)
    assume none: "Inr None \<notin> set (llmCaller_settled (calls run))"
      and absent: "lastResponse res = None"
    show "iterations res = 0"
    proof (rule ccontr)
      assume "iterations res \<noteq> 0"
      with parts absent have "llmCaller_settled (calls run) \<noteq> []"
        and "last (llmCaller_settled (calls run)) = Inr None"
        by simp_all
      then have "Inr None \<in> set (llmCaller_settled (calls run))"
        using last_in_set by metis
      with none show False by simp
    qed
  next
    assume "iterations res = 0"
    with parts show "lastResponse res = None" by simp
  qed
  ultimately show ?thesis by blast
qed

theorem agentLoop_lastResponse_witness:
  "agentLoop until_stop 0 =
     Some \<lparr>settled = Inr \<lparr>finalContext = (), lastResponse = Some ''stop'',
                           reason = stop_condition, iterations = 3\<rparr>,
           world = 3,
           calls =
             [LlmCaller () (Inr (Some ''response1'')),
              StopCondition (Some ''response1'') () (Inr False),
              LlmCaller () (Inr (Some ''response2'')),
              StopCondition (Some ''response2'') () (Inr False),
              LlmCaller () (Inr (Some ''stop'')),
              StopCondition (Some ''stop'') () (Inr True)]\<rparr> \<and>
   last (llmCaller_settled
     [LlmCaller () (Inr (Some ''response1'')) :: (string, unit, string) call,
      StopCondition (Some ''response1'') () (Inr False),
      LlmCaller () (Inr (Some ''response2'')),
      StopCondition (Some ''response2'') () (Inr False),
      LlmCaller () (Inr (Some ''stop'')),
      StopCondition (Some ''stop'') () (Inr True)]) = Inr (Some ''stop'')"
proof -
  have run: "agentLoop until_stop 0 =
     Some \<lparr>settled = Inr \<lparr>finalContext = (), lastResponse = Some ''stop'',
                           reason = stop_condition, iterations = 3\<rparr>,
           world = 3,
           calls =
             [LlmCaller () (Inr (Some ''response1'')),
              StopCondition (Some ''response1'') () (Inr False),
              LlmCaller () (Inr (Some ''response2'')),
              StopCondition (Some ''response2'') () (Inr False),
              LlmCaller () (Inr (Some ''stop'')),
              StopCondition (Some ''stop'') () (Inr True)]\<rparr>"
    by (simp add: agentLoop_def bound_of_def until_stop_def loop.simps body_def increment_def)
  from agentLoop_lastResponse [OF run, of "\<lparr>finalContext = (),
      lastResponse = Some ''stop'', reason = stop_condition, iterations = 3\<rparr>"] run
  show ?thesis by simp
qed

theorem agentLoop_lastResponse_undefined_counterexample:
  "agentLoop answers_undefined 0 =
     Some \<lparr>settled = Inr \<lparr>finalContext = (), lastResponse = None,
                           reason = stop_condition, iterations = 1\<rparr>,
           world = 1,
           calls = [LlmCaller () (Inr None), StopCondition None () (Inr True)]\<rparr> \<and>
   (1::nat) \<noteq> 0"
  by (simp add: agentLoop_def bound_of_def answers_undefined_def loop.simps body_def
      increment_def)



text \<open>
  Claim C9, as amended. For every configuration whose \<open>maxLoops\<close> is not above \<open>2\<^sup>5\<^sup>3\<close>
  (the test \<open>2\<^sup>5\<^sup>3 < maxLoops\<close> is false: a finite number up to \<open>2\<^sup>5\<^sup>3\<close>, \<open>-Infinity\<close> or
  \<open>NaN\<close>; or an absent \<open>maxLoops\<close>, which is 10) and whose three callbacks settle on
  every call, \<open>agentLoop\<close> settles, and \<open>llmCaller\<close> is invoked at most \<open>n\<close> times for
  every natural number \<open>n\<close> that is not below \<open>maxLoops\<close>: at most \<open>maxLoops\<close> times when
  \<open>maxLoops\<close> is a non-negative integer, never when it is negative or \<open>NaN\<close>.

  The claim as stated fails for \<open>maxLoops = Infinity\<close>, a value of the type \<open>number\<close>
  that the code accepts: the test of the loop never fails, and with a predicate that
  is always false the invocation never settles, although each callback does. The
  same holds for the finite doubles above \<open>2\<^sup>5\<^sup>3\<close>, which the counter never reaches
  (\<open>never_stops_beyond_reach\<close>).
\<close>

theorem agentLoop_terminates:
  assumes "\<not> lt (Num (2 ^ 53)) (case maxLoops opts of None \<Rightarrow> Num 10 | Some m \<Rightarrow> m)"
    and "\<And>c w. llmCaller opts c w \<noteq> None"
    and "\<And>r c w. stopCondition opts r c w \<noteq> None"
    and "\<And>update r c w. updateContext opts = Some update \<Longrightarrow> update r c w \<noteq> None"
  shows "\<exists>run. agentLoop opts w0 = Some run \<and>
           (\<forall>n. \<not> lt (Num (of_nat n))
                      (case maxLoops opts of None \<Rightarrow> Num 10 | Some m \<Rightarrow> m) \<longrightarrow>
                length (llmCaller_settled (calls run)) \<le> n)"
proof -
  let ?b = "case maxLoops opts of None \<Rightarrow> Num 10 | Some m \<Rightarrow> m"
  have b: "bound_of opts = ?b" by (simp add: bound_of_def)
  have reach: "\<not> lt (Num (2 ^ 53)) (bound_of opts)"
    using assms(1) unfolding b .
  have "\<exists>run. loop opts (bound_of opts) (initialContext opts) None 0 w0 [] = Some run"
    using assms(2-4) reach by (rule loop_settles)
  then obtain run where run: "agentLoop opts w0 = Some run"
    unfolding agentLoop_def by blast
  have "\<forall>n. \<not> lt (Num (of_nat n)) (bound_of opts) \<longrightarrow>
             length (llmCaller_settled (calls run)) \<le> n"
  proof (intro allI impI)
    fix n assume n: "\<not> lt (Num (of_nat n)) (bound_of opts)"
    from run show "length (llmCaller_settled (calls run)) \<le> n"
    proof (cases rule: agentLoop_settled_cases)
      case (budget j c l w t)
      have small: "j \<le> 2 ^ 53"
        using budget(2) reach by (rule passes_within_reach)
      have "j \<le> n"
      proof (rule ccontr)
        assume "\<not> j \<le> n"
        then have less: "n < j" by simp
        with budget(2) have "lt (Num (of_nat (min n (2 ^ 53)))) (bound_of opts)"
          by blast
        moreover from less small have "min n (2 ^ 53) = n" by simp
        ultimately show False using n by simp
      qed
      with passes_calls [OF budget(1)] budget(4) show ?thesis by simp
    next
      case (left j c l w t)
      from left(3) reach have "j < 2 ^ 53"
        by (rule pass_within_reach)
      then have "min j (2 ^ 53) = j" by simp
      with left(3) have below: "lt (Num (of_nat j)) (bound_of opts)" by simp
      have "j < n"
      proof (rule ccontr)
        assume "\<not> j < n"
        then have "n \<le> j" by simp
        with below have "lt (Num (of_nat n)) (bound_of opts)"
          by (rule lt_bound_earlier)
        with n show False by simp
      qed
      moreover from left(4)
      have "length (llmCaller_settled (calls run)) = Suc (length (llmCaller_settled t))"
        by (auto elim!: body_cases)
      ultimately show ?thesis using passes_calls [OF left(1)] by simp
    qed
  qed
  with run show ?thesis unfolding b by blast
qed

theorem agentLoop_terminates_witness:
  "maxLoops (never_stops\<lparr>maxLoops := None\<rparr>) = None \<and>
   (\<exists>run. agentLoop (never_stops\<lparr>maxLoops := None\<rparr>) 0 = Some run \<and>
      length (llmCaller_settled (calls run)) \<le> 10) \<and>
   (\<exists>run. agentLoop (never_stops\<lparr>maxLoops := Some NaN\<rparr>) 0 = Some run \<and>
      length (llmCaller_settled (calls run)) \<le> 0) \<and>
   agentLoop never_stops 0 =
     Some \<lparr>settled = Inr \<lparr>finalContext = 0, lastResponse = Some ''response'',
                           reason = max_loops, iterations = 5\<rparr>,
           world = 5,
           calls =
             [LlmCaller 0 (Inr (Some ''response'')),
              StopCondition (Some ''response'') 0 (Inr False),
              LlmCaller 0 (Inr (Some ''response'')),
              StopCondition (Some ''response'') 0 (Inr False),
              LlmCaller 0 (Inr (Some ''response'')),
              StopCondition (Some ''response'') 0 (Inr False),
              LlmCaller 0 (Inr (Some ''response'')),
              StopCondition (Some ''response'') 0 (Inr False),
              LlmCaller 0 (Inr (Some ''response'')),
              StopCondition (Some ''response'') 0 (Inr False)]\<rparr>"
proof -
  let ?opts = "never_stops\<lparr>maxLoops := None\<rparr>"
  let ?nan = "never_stops\<lparr>maxLoops := Some NaN\<rparr>"
  have "\<exists>run. agentLoop ?opts 0 = Some run \<and>
          (\<forall>n. \<not> lt (Num (of_nat n))
                     (case maxLoops ?opts of None \<Rightarrow> Num 10 | Some m \<Rightarrow> m) \<longrightarrow>
               length (llmCaller_settled (calls run)) \<le> n)"
    by (rule agentLoop_terminates) (auto simp add: never_stops_def)
  then obtain run where run: "agentLoop ?opts 0 = Some run"
    and bound: "\<forall>n. \<not> lt (Num (of_nat n))
                     (case maxLoops ?opts of None \<Rightarrow> Num 10 | Some m \<Rightarrow> m) \<longrightarrow>
               length (llmCaller_settled (calls run)) \<le> n"
    by blast
  from bound [rule_format, of 10] have "length (llmCaller_settled (calls run)) \<le> 10"
    by simp
  with run have default: "\<exists>run. agentLoop ?opts 0 = Some run \<and>
      length (llmCaller_settled (calls run)) \<le> 10"
    by blast
  have "\<exists>run. agentLoop ?nan 0 = Some run \<and>
          (\<forall>n. \<not> lt (Num (of_nat n))
                     (case maxLoops ?nan of None \<Rightarrow> Num 10 | Some m \<Rightarrow> m) \<longrightarrow>
               length (llmCaller_settled (calls run)) \<le> n)"
    by (rule agentLoop_terminates) (auto simp add: never_stops_def)
  then obtain run' where run': "agentLoop ?nan 0 = Some run'"
    and bound': "\<forall>n. \<not> lt (Num (of_nat n))
                     (case maxLoops ?nan of None \<Rightarrow> Num 10 | Some m \<Rightarrow> m) \<longrightarrow>
               length (llmCaller_settled (calls run')) \<le> n"
    by blast
  from bound' [rule_format, of 0] have "length (llmCaller_settled (calls run')) \<le> 0"
    by simp
  with run' have nan: "\<exists>run. agentLoop ?nan 0 = Some run \<and>
      length (llmCaller_settled (calls run)) \<le> 0"
    by blast
  have run5: "agentLoop never_stops 0 =
     Some \<lparr>settled = Inr \<lparr>finalContext = 0, lastResponse = Some ''response'',
                           reason = max_loops, iterations = 5\<rparr>,
           world = 5,
           calls =
             [LlmCaller 0 (Inr (Some ''response'')),
              StopCondition (Some ''response'') 0 (Inr False),
              LlmCaller 0 (Inr (Some ''response'')),
              StopCondition (Some ''response'') 0 (Inr False),
              LlmCaller 0 (Inr (Some ''response'')),
              StopCondition (Some ''response'') 0 (Inr False),
              LlmCaller 0 (Inr (Some ''response'')),
              StopCondition (Some ''response'') 0 (Inr False),
              LlmCaller 0 (Inr (Some ''response'')),
              StopCondition (Some ''response'') 0 (Inr False)]\<rparr>"
    by (simp add: agentLoop_def bound_of_def never_stops_def loop.simps body_def
        increment_def)
  from default nan run5 show ?thesis by simp
qed

theorem agentLoop_unbounded_counterexample:
  "maxLoops (never_stops\<lparr>maxLoops := Some Infinity\<rparr>) = Some Infinity \<and>
   agentLoop (never_stops\<lparr>maxLoops := Some Infinity\<rparr>) 0 = None"
proof -
  have "\<And>c l n w t r. body (never_stops\<lparr>maxLoops := Some Infinity\<rparr>) c l n w t \<noteq> Some (Exit r)"
    by (simp add: body_def never_stops_def)
  moreover have "lt (Num (2 ^ 53)) (bound_of (never_stops\<lparr>maxLoops := Some Infinity\<rparr>))"
    by (simp add: bound_of_def)
  moreover have "(0::nat) \<le> 2 ^ 53" by simp
  ultimately have "agentLoop (never_stops\<lparr>maxLoops := Some Infinity\<rparr>) 0 = None"
    unfolding agentLoop_def by (rule loop_never_settles)
  then show ?thesis by simp
qed

text \<open>
  Claim C10. A negative \<open>maxLoops\<close> (a negative number or \<open>-Infinity\<close>) is not
  rejected and behaves as 0 does: no callback is invoked, and the result carries the
  initial context, no response, the reason \<open>max_loops\<close> and 0 iterations.
\<close>

theorem agentLoop_maxLoops_negative:
  assumes "maxLoops opts = Some m" and "lt m (Num 0)"
  shows "agentLoop opts w =
           Some \<lparr>settled = Inr \<lparr>finalContext = initialContext opts, lastResponse = None,
                                 reason = max_loops, iterations = 0\<rparr>,
                 world = w, calls = []\<rparr> \<and>
         agentLoop opts w = agentLoop (opts\<lparr>maxLoops := Some (Num 0)\<rparr>) w"
proof -
  have "\<not> lt (Num 0) m" using assms(2) by (cases m) simp_all
  then show ?thesis
    using assms(1) by (simp add: agentLoop_def bound_of_def loop.simps)
qed

theorem agentLoop_maxLoops_negative_witness:
  "maxLoops (never_stops\<lparr>maxLoops := Some (Num (- 1))\<rparr>) = Some (Num (- 1)) \<and>
   lt (Num (- 1)) (Num 0) \<and>
   agentLoop (never_stops\<lparr>maxLoops := Some (Num (- 1))\<rparr>) 0 =
     Some \<lparr>settled = Inr \<lparr>finalContext = 0, lastResponse = None,
                           reason = max_loops, iterations = 0\<rparr>,
           world = 0, calls = []\<rparr> \<and>
   agentLoop (never_stops\<lparr>maxLoops := Some (Num (- 1))\<rparr>) 0 =
     agentLoop (never_stops\<lparr>maxLoops := Some (Num (- 1)), maxLoops := Some (Num 0)\<rparr>) 0"
proof -
  let ?opts = "never_stops\<lparr>maxLoops := Some (Num (- 1))\<rparr>"
  have m: "maxLoops ?opts = Some (Num (- 1))" by simp
  have neg: "lt (Num (- 1)) (Num 0)" by simp
  have c: "initialContext ?opts = 0" by (simp add: never_stops_def)
  note run = agentLoop_maxLoops_negative [OF m neg, of 0, unfolded c]
  from m neg conjunct1 [OF run] conjunct2 [OF run] show ?thesis
    by (intro conjI)
qed

end
